theory Spec2Isabelle
  imports Complex_Main
begin

section \<open>Python values and library functions used by filemaker.py\<close>

text \<open>
  The module is Python 2. Exceptions are values of type \<open>error\<close>; a function that may
  raise returns \<open>error + 'a\<close>, with \<open>Inl\<close> for the exception. Text is a list of characters:
  the unicode strings the parser delivers, with code points below 256.
\<close>

datatype error = ValueError | KeyError | IndexError | AttributeError

subsection \<open>Character classes\<close>

text \<open>\<^verbatim>\<open>\d\<close> in a pattern compiled without \<^verbatim>\<open>re.UNICODE\<close> is \<^verbatim>\<open>[0-9]\<close>.\<close>

definition is_digit :: "char \<Rightarrow> bool" where
  "is_digit c = (c \<in> set ''0123456789'')"

text \<open>The value of a digit: its code less the code of \<^verbatim>\<open>0\<close>.\<close>

definition digit_val :: "char \<Rightarrow> nat" where
  "digit_val c = of_char c - 48"

text \<open>
  The whitespace that \<^verbatim>\<open>strip()\<close> and \<^verbatim>\<open>int()\<close> skip in a unicode string, as far as it
  lies below 256: tab, LF, VT, FF, CR, the four separators FS, GS, RS and US, space, NEL
  and the no-break space.
\<close>

definition is_space :: "char \<Rightarrow> bool" where
  "is_space c =
     (c \<in> set [CHR 0x09, CHR 0x0A, CHR 0x0B, CHR 0x0C, CHR 0x0D, CHR 0x1C, CHR 0x1D, CHR 0x1E,
               CHR 0x1F, CHR '' '', CHR 0x85, CHR 0xA0])"

definition strip :: "string \<Rightarrow> string" where
  "strip s = rev (dropWhile is_space (rev (dropWhile is_space s)))"

text \<open>\<^verbatim>\<open>str.lower()\<close> on ASCII letters.\<close>

definition lower_char :: "char \<Rightarrow> char" where
  "lower_char c =
     (case map_of (zip ''ABCDEFGHIJKLMNOPQRSTUVWXYZ'' ''abcdefghijklmnopqrstuvwxyz'') c of
        None \<Rightarrow> c
      | Some l \<Rightarrow> l)"

definition lower :: "string \<Rightarrow> string" where
  "lower s = map lower_char s"

subsection \<open>\<^verbatim>\<open>int(s)\<close> and \<^verbatim>\<open>float(s)\<close>\<close>

text \<open>The number written by a string of decimal digits, most significant digit first.\<close>

definition digits_value :: "string \<Rightarrow> nat" where
  "digits_value s = foldl (\<lambda>n c. 10 * n + digit_val c) 0 s"

text \<open>
  \<^verbatim>\<open>int(s)\<close> in base 10: surrounding whitespace is skipped, one sign is allowed, then at
  least one digit and nothing else; every other string raises \<^verbatim>\<open>ValueError\<close>.
\<close>

definition py_int :: "string \<Rightarrow> error + int" where
  "py_int s =
     (case strip s of
        [] \<Rightarrow> Inl ValueError
      | c # r \<Rightarrow>
          if c = CHR ''-'' then
            (if r \<noteq> [] \<and> list_all is_digit r then Inr (- int (digits_value r)) else Inl ValueError)
          else if c = CHR ''+'' then
            (if r \<noteq> [] \<and> list_all is_digit r then Inr (int (digits_value r)) else Inl ValueError)
          else
            (if list_all is_digit (c # r) then Inr (int (digits_value (c # r))) else Inl ValueError))"

text \<open>
  \<^verbatim>\<open>float(s)\<close> on the strings \<^verbatim>\<open>format_number\<close> passes to it, which contain digits
  and points only: digits with at most one point and at least one digit are accepted,
  everything else raises \<^verbatim>\<open>ValueError\<close>. The value is the exact decimal the string
  writes; Python returns the binary64 number nearest to it (infinity beyond the range),
  a rounding that is monotone and keeps zero and the sign.
\<close>

definition py_float :: "string \<Rightarrow> error + rat" where
  "py_float s =
     (let ip = takeWhile is_digit s; r = dropWhile is_digit s in
      case r of
        [] \<Rightarrow> (if ip = [] then Inl ValueError else Inr (of_nat (digits_value ip)))
      | c # fp \<Rightarrow>
          if c = CHR ''.'' \<and> list_all is_digit fp \<and> \<not> (ip = [] \<and> fp = [])
          then Inr (of_nat (digits_value ip) + of_nat (digits_value fp) / 10 ^ length fp)
          else Inl ValueError)"

subsection \<open>\<^verbatim>\<open>datetime.time\<close>\<close>

datatype time = Time (hour: int) (minute: int) (second: int)

text \<open>The constructor \<^verbatim>\<open>datetime.time(h, m, s)\<close> raises \<^verbatim>\<open>ValueError\<close> out of range.\<close>

definition datetime_time :: "int \<Rightarrow> int \<Rightarrow> int \<Rightarrow> error + time" where
  "datetime_time h m s =
     (if 0 \<le> h \<and> h \<le> 23 \<and> 0 \<le> m \<and> m \<le> 59 \<and> 0 \<le> s \<and> s \<le> 59
      then Inr (Time h m s) else Inl ValueError)"

text \<open>Truth value of a time in Python 2: midnight is false.\<close>

definition time_nonzero :: "time \<Rightarrow> bool" where
  "time_nonzero t = (\<not> (hour t = 0 \<and> minute t = 0 \<and> second t = 0))"

section \<open>The lenient time parser\<close>

text \<open>
  The pattern of \<^verbatim>\<open>flexitime\<close>:
  \<^verbatim>\<open>(?P<hours>\d{1,2})[\.:](?P<minutes>\d{1,2})([\.:](?P<seconds>\d{1,2}))? ?(?P<ampm>[Ap][Mm])?\<close>
  The matcher below follows the backtracking engine piece by piece.
\<close>

record groups =
  hours :: string
  minutes :: string
  seconds :: "string option"
  ampm :: "string option"

text \<open>
  \<^verbatim>\<open>\d{1,2}\<close>, greedy: the ways to match at the head of the text, in the order the engine
  tries them (two digits first), each with the text that remains.
\<close>

fun digits12 :: "string \<Rightarrow> (string \<times> string) list" where
  "digits12 [] = []"
| "digits12 [a] = (if is_digit a then [([a], [])] else [])"
| "digits12 (a # b # r) =
     (if is_digit a
      then (if is_digit b then [([a, b], r), ([a], b # r)] else [([a], b # r)])
      else [])"

text \<open>\<^verbatim>\<open>[\.:]\<close>: one separator.\<close>

fun match_sep :: "string \<Rightarrow> string option" where
  "match_sep [] = None"
| "match_sep (c # r) = (if c = CHR ''.'' \<or> c = CHR '':'' then Some r else None)"

text \<open>
  \<^verbatim>\<open>([\.:](?P<seconds>\d{1,2}))?\<close>: the group is taken when a separator and a digit follow,
  with two digits when there are two; otherwise it is skipped and nothing is consumed.
\<close>

definition seconds_group :: "string \<Rightarrow> string option \<times> string" where
  "seconds_group s =
     (case match_sep s of
        None \<Rightarrow> (None, s)
      | Some r \<Rightarrow> (case digits12 r of [] \<Rightarrow> (None, s) | (d, r') # _ \<Rightarrow> (Some d, r')))"

text \<open>\<^verbatim>\<open> ?\<close>: one space when there is one.\<close>

fun optional_space :: "string \<Rightarrow> string" where
  "optional_space [] = []"
| "optional_space (c # r) = (if c = CHR '' '' then r else c # r)"

text \<open>\<^verbatim>\<open>(?P<ampm>[Ap][Mm])?\<close>: the first class holds \<^verbatim>\<open>A\<close> and \<^verbatim>\<open>p\<close> only.\<close>

fun ampm_group :: "string \<Rightarrow> string option" where
  "ampm_group (a # b # r) =
     (if (a = CHR ''A'' \<or> a = CHR ''p'') \<and> (b = CHR ''M'' \<or> b = CHR ''m'')
      then Some [a, b] else None)"
| "ampm_group _ = None"

text \<open>
  What follows the hour: separator, minutes, then the optional parts. Everything after the
  minutes can match the empty string, so the first (greedy) choice for the minutes stands.
\<close>

definition match_after_hours :: "string \<Rightarrow> string \<Rightarrow> groups option" where
  "match_after_hours h r =
     (case match_sep r of
        None \<Rightarrow> None
      | Some r1 \<Rightarrow>
          (case digits12 r1 of
             [] \<Rightarrow> None
           | (m, r2) # _ \<Rightarrow>
               (case seconds_group r2 of
                  (sec, r3) \<Rightarrow>
                    Some \<lparr>hours = h, minutes = m, seconds = sec,
                          ampm = ampm_group (optional_space r3)\<rparr>)))"

text \<open>The first alternative for the hour that lets the rest match.\<close>

fun first_match :: "(string \<times> string) list \<Rightarrow> groups option" where
  "first_match [] = None"
| "first_match ((h, r) # alts) =
     (case match_after_hours h r of Some g \<Rightarrow> Some g | None \<Rightarrow> first_match alts)"

definition match_at :: "string \<Rightarrow> groups option" where
  "match_at s = first_match (digits12 s)"

text \<open>\<^verbatim>\<open>pat.search(value)\<close>: the match at the leftmost position that has one.\<close>

fun pat_search :: "string \<Rightarrow> groups option" where
  "pat_search [] = match_at []"
| "pat_search (c # cs) =
     (case match_at (c # cs) of Some g \<Rightarrow> Some g | None \<Rightarrow> pat_search cs)"

text \<open>\<^verbatim>\<open>parts['ampm'] and (parts['ampm'].lower() == 'pm')\<close>\<close>

definition is_pm :: "string option \<Rightarrow> bool" where
  "is_pm a = (case a of None \<Rightarrow> False | Some x \<Rightarrow> lower x = ''pm'')"

text \<open>The branch of \<^verbatim>\<open>flexitime\<close> taken on a match.\<close>

definition time_of_groups :: "groups \<Rightarrow> error + time" where
  "time_of_groups parts =
     (case py_int (hours parts) of
        Inl e \<Rightarrow> Inl e
      | Inr h \<Rightarrow>
     (case py_int (minutes parts) of
        Inl e \<Rightarrow> Inl e
      | Inr m \<Rightarrow>
     (case (case seconds parts of None \<Rightarrow> Inr 0 | Some x \<Rightarrow> py_int x) of
        Inl e \<Rightarrow> Inl e
      | Inr s \<Rightarrow>
          (let h1 = (if is_pm (ampm parts) \<and> h < 12 then h + 12 else h);
               h2 = (if h1 > 23 then 0 else h1)
           in datetime_time h2 m s))))"

text \<open>\<^verbatim>\<open>flexitime(value)\<close>: \<open>Inr None\<close> is Python's \<^verbatim>\<open>None\<close>, returned when nothing matches.\<close>

definition flexitime :: "string \<Rightarrow> error + time option" where
  "flexitime v =
     (case pat_search v of
        None \<Rightarrow> Inr None
      | Some parts \<Rightarrow> (case time_of_groups parts of Inl e \<Rightarrow> Inl e | Inr t \<Rightarrow> Inr (Some t)))"

section \<open>Dates\<close>

datatype date = Date (year: int) (month: int) (day: int)

definition is_leap :: "int \<Rightarrow> bool" where
  "is_leap y = (y mod 4 = 0 \<and> \<not> (y mod 100 = 0 \<and> \<not> y mod 400 = 0))"

definition days_in_month :: "int \<Rightarrow> int \<Rightarrow> int" where
  "days_in_month y m =
     (if m = 2 then (if is_leap y then 29 else 28)
      else if m = 4 \<or> m = 6 \<or> m = 9 \<or> m = 11 then 30 else 31)"

text \<open>The constructor \<^verbatim>\<open>datetime.date(y, m, d)\<close> raises \<^verbatim>\<open>ValueError\<close> out of range.\<close>

definition datetime_date :: "int \<Rightarrow> int \<Rightarrow> int \<Rightarrow> error + date" where
  "datetime_date y m d =
     (if 1 \<le> y \<and> y \<le> 9999 \<and> 1 \<le> m \<and> m \<le> 12 \<and> 1 \<le> d \<and> d \<le> days_in_month y m
      then Inr (Date y m d) else Inl ValueError)"

text \<open>
  \<^verbatim>\<open>time.strptime(data, format)\<close> raises \<^verbatim>\<open>ValueError\<close> or returns a nine-field
  \<^verbatim>\<open>struct_time\<close>, of which \<^verbatim>\<open>format_date\<close> reads \<^verbatim>\<open>t[:3]\<close>: year, month, day.
  The formatting functions take the library function as the parameter \<open>sp\<close>, so that what
  is proved of them holds for every format the library knows.
\<close>

type_synonym strptime_fn = "string \<Rightarrow> string \<Rightarrow> error + (int \<times> int \<times> int)"

subsection \<open>\<^verbatim>\<open>time.strptime\<close> for formats of year, month and day\<close>

text \<open>
  The library turns the format into a regular expression, matches it at the start of the
  data without regard to letter case, and wants the match to end where the data ends. The
  model covers the directives \<^verbatim>\<open>%Y\<close>, \<^verbatim>\<open>%m\<close>, \<^verbatim>\<open>%d\<close> and \<^verbatim>\<open>%%\<close>, each field at most once,
  and literal characters other than whitespace; \<open>compile_format\<close> is \<open>None\<close> on every
  other format, and \<open>strptime\<close> then stands for nothing the library does.
\<close>

datatype fmt_item = FmtYear | FmtMonth | FmtDay | FmtLit char

fun compile_format :: "string \<Rightarrow> fmt_item list option" where
  "compile_format [] = Some []"
| "compile_format [c] =
     (if c = CHR ''%'' \<or> is_space c then None else Some [FmtLit c])"
| "compile_format (c # d # r) =
     (if c = CHR ''%'' then
        (case compile_format r of
           None \<Rightarrow> None
         | Some items \<Rightarrow>
             if d = CHR ''Y'' \<and> FmtYear \<notin> set items then Some (FmtYear # items)
             else if d = CHR ''m'' \<and> FmtMonth \<notin> set items then Some (FmtMonth # items)
             else if d = CHR ''d'' \<and> FmtDay \<notin> set items then Some (FmtDay # items)
             else if d = CHR ''%'' then Some (FmtLit CHR ''%'' # items)
             else None)
      else if is_space c then None
      else map_option (\<lambda>items. FmtLit c # items) (compile_format (d # r)))"

text \<open>
  The ways one item matches at the head of the data, in the order of the alternatives of
  its regular expression, each with the number read and the data that remains:
  \<^verbatim>\<open>%Y\<close> is \<^verbatim>\<open>\d\d\d\d\<close>, \<^verbatim>\<open>%m\<close> is \<^verbatim>\<open>1[0-2]|0[1-9]|[1-9]\<close>,
  \<^verbatim>\<open>%d\<close> is \<^verbatim>\<open>3[0-1]|[1-2]\d|0[1-9]|[1-9]| [1-9]\<close>.
\<close>

definition one_of :: "string \<Rightarrow> char \<Rightarrow> bool" where
  "one_of cs c = (c \<in> set cs)"

text \<open>A two-character alternative and a one-character alternative.\<close>

fun alt2 :: "(char \<Rightarrow> bool) \<Rightarrow> (char \<Rightarrow> bool) \<Rightarrow> string \<Rightarrow> (nat \<times> string) list" where
  "alt2 p q (a # b # r) = (if p a \<and> q b then [(digits_value (filter is_digit [a, b]), r)] else [])"
| "alt2 p q _ = []"

fun alt1 :: "(char \<Rightarrow> bool) \<Rightarrow> string \<Rightarrow> (nat \<times> string) list" where
  "alt1 p (a # r) = (if p a then [(digits_value [a], r)] else [])"
| "alt1 p _ = []"

fun item_matches :: "fmt_item \<Rightarrow> string \<Rightarrow> (nat \<times> string) list" where
  "item_matches FmtYear s =
     (if 4 \<le> length s \<and> list_all is_digit (take 4 s)
      then [(digits_value (take 4 s), drop 4 s)] else [])"
| "item_matches FmtMonth s =
     alt2 (one_of ''1'') (one_of ''012'') s
     @ alt2 (one_of ''0'') (one_of ''123456789'') s
     @ alt1 (one_of ''123456789'') s"
| "item_matches FmtDay s =
     alt2 (one_of ''3'') (one_of ''01'') s
     @ alt2 (one_of ''12'') is_digit s
     @ alt2 (one_of ''0'') (one_of ''123456789'') s
     @ alt1 (one_of ''123456789'') s
     @ alt2 (one_of '' '') (one_of ''123456789'') s"
| "item_matches (FmtLit c) s =
     (case s of [] \<Rightarrow> [] | a # r \<Rightarrow> if lower_char a = lower_char c then [(0, r)] else [])"

text \<open>The fields found so far: year, month, day.\<close>

type_synonym found = "nat option \<times> nat option \<times> nat option"

fun record_item :: "fmt_item \<Rightarrow> nat \<Rightarrow> found \<Rightarrow> found" where
  "record_item FmtYear n (y, m, d) = (Some n, m, d)"
| "record_item FmtMonth n (y, m, d) = (y, Some n, d)"
| "record_item FmtDay n (y, m, d) = (y, m, Some n)"
| "record_item (FmtLit c) n f = f"

text \<open>The backtracking match: the first alternative of each item that lets the rest match.\<close>

fun match_items :: "fmt_item list \<Rightarrow> string \<Rightarrow> found \<Rightarrow> (found \<times> string) option"
  and try_alternatives ::
    "fmt_item \<Rightarrow> fmt_item list \<Rightarrow> (nat \<times> string) list \<Rightarrow> found \<Rightarrow> (found \<times> string) option"
where
  "match_items [] s f = Some (f, s)"
| "match_items (i # items) s f = try_alternatives i items (item_matches i s) f"
| "try_alternatives i items [] f = None"
| "try_alternatives i items ((n, r) # alts) f =
     (case match_items items r (record_item i n f) of
        Some res \<Rightarrow> Some res
      | None \<Rightarrow> try_alternatives i items alts f)"

text \<open>
  A field the format does not name defaults to 1900, 1 and 1. The library builds the date
  to find the day of the week and of the year, which raises for a date that does not exist.
\<close>

definition strptime :: strptime_fn where
  "strptime data format =
     (case compile_format format of
        None \<Rightarrow> Inl ValueError
      | Some items \<Rightarrow>
          (case match_items items data (None, None, None) of
             None \<Rightarrow> Inl ValueError
           | Some ((y, m, d), rest) \<Rightarrow>
               if rest \<noteq> [] then Inl ValueError
               else
                 (case datetime_date (int (case_option 1900 id y)) (int (case_option 1 id m))
                         (int (case_option 1 id d)) of
                    Inl e \<Rightarrow> Inl e
                  | Inr dt \<Rightarrow> Inr (year dt, month dt, day dt))))"

section \<open>The importer\<close>

subsection \<open>Ordered dictionaries\<close>

text \<open>
  A \<^verbatim>\<open>collections.OrderedDict\<close> is the list of its items in insertion order. Assigning to
  a key that is present replaces the value where it stands; a new key goes to the end.
\<close>

type_synonym ('k, 'v) odict = "('k \<times> 'v) list"

fun od_set :: "('k, 'v) odict \<Rightarrow> 'k \<Rightarrow> 'v \<Rightarrow> ('k, 'v) odict" where
  "od_set [] k v = [(k, v)]"
| "od_set ((k', v') # d) k v = (if k' = k then (k, v) # d else (k', v') # od_set d k v)"

definition od_get :: "('k, 'v) odict \<Rightarrow> 'k \<Rightarrow> error + 'v" where
  "od_get d k = (case map_of d k of None \<Rightarrow> Inl KeyError | Some v \<Rightarrow> Inr v)"

definition od_keys :: "('k, 'v) odict \<Rightarrow> 'k list" where
  "od_keys d = map fst d"

text \<open>\<^verbatim>\<open>OrderedDict(pairs)\<close> assigns the pairs one after the other.\<close>

definition ordered_dict :: "('k \<times> 'v) list \<Rightarrow> ('k, 'v) odict" where
  "ordered_dict pairs = foldl (\<lambda>d (k, v). od_set d k v) [] pairs"

subsection \<open>Raising and sequencing\<close>

text \<open>Run \<open>f\<close> on the result of \<open>r\<close> unless \<open>r\<close> raised.\<close>

definition bind :: "error + 'a \<Rightarrow> ('a \<Rightarrow> error + 'b) \<Rightarrow> error + 'b" where
  "bind r f = (case r of Inl e \<Rightarrow> Inl e | Inr x \<Rightarrow> f x)"

subsection \<open>Nodes and field definitions\<close>

text \<open>
  An \<^verbatim>\<open>XMLNode\<close> object. Nodes are shared between the stack of open elements and the child
  lists of their parents, so a node's children are references into a store of objects.
\<close>

type_synonym ref = nat

record xmlnode =
  node_name :: string
  node_attrs :: "(string, string) odict"
  node_text :: string
  node_children :: "ref list"

text \<open>\<^verbatim>\<open>XMLNode(name, attrs)\<close>: no text, and a child list of its own.\<close>

definition XMLNode :: "string \<Rightarrow> (string, string) odict \<Rightarrow> xmlnode" where
  "XMLNode name attrs =
     \<lparr>node_name = name, node_attrs = attrs, node_text = [], node_children = []\<rparr>"

text \<open>The four-tuple \<^verbatim>\<open>(name, kind, maxrepeat, empty)\<close> kept for a field.\<close>

type_synonym field_def = "string \<times> string \<times> int \<times> bool"

text \<open>A converted value: \<^verbatim>\<open>None\<close>, a float, a date, a time or text.\<close>

datatype pyval = VNone | VFloat rat | VDate date | VTime time | VText string

text \<open>The attribute \<^verbatim>\<open>fields\<close> is \<open>fmp_fields\<close> here.\<close>

record fmp_importer =
  fmp_fields :: "(string, field_def) odict"
  datefmt :: string
  database :: ref

definition DEFAULT_DATEFMT :: string where
  "DEFAULT_DATEFMT = ''%Y/%m/%d''"

text \<open>\<^verbatim>\<open>datefmt or DEFAULT_DATEFMT\<close>: \<^verbatim>\<open>None\<close> and the empty string give the default.\<close>

definition datefmt_or_default :: "string option \<Rightarrow> string" where
  "datefmt_or_default f = (case f of None \<Rightarrow> DEFAULT_DATEFMT | Some x \<Rightarrow> if x = [] then DEFAULT_DATEFMT else x)"

text \<open>\<^verbatim>\<open>FMPImporter.__init__\<close>, given the reference of its new \<^verbatim>\<open>DATABASE\<close> node.\<close>

definition new_importer :: "string option \<Rightarrow> ref \<Rightarrow> fmp_importer" where
  "new_importer f db = \<lparr>fmp_fields = [], datefmt = datefmt_or_default f, database = db\<rparr>"

text \<open>\<^verbatim>\<open>node.attrs[k]\<close>\<close>

definition attr :: "xmlnode \<Rightarrow> string \<Rightarrow> error + string" where
  "attr node k = od_get (node_attrs node) k"

definition add_field :: "fmp_importer \<Rightarrow> xmlnode \<Rightarrow> error + fmp_importer" where
  "add_field imp node =
     bind (attr node ''NAME'') (\<lambda>name.
     bind (attr node ''TYPE'') (\<lambda>kind.
     bind (attr node ''MAXREPEAT'') (\<lambda>mr.
     bind (py_int mr) (\<lambda>maxrepeat.
     bind (attr node ''EMPTYOK'') (\<lambda>emptyok.
       Inr (imp\<lparr>fmp_fields := od_set (fmp_fields imp) name (name, kind, maxrepeat, emptyok = ''YES'')\<rparr>))))))"

definition add_database :: "fmp_importer \<Rightarrow> ref \<Rightarrow> fmp_importer" where
  "add_database imp node = imp\<lparr>database := node\<rparr>"

definition field_names :: "fmp_importer \<Rightarrow> string list" where
  "field_names imp = od_keys (fmp_fields imp)"

subsection \<open>Conversion of one value\<close>

text \<open>
  The formatting methods take \<^verbatim>\<open>(name, kind, value, row, maxrepeat, empty)\<close> and read
  \<^verbatim>\<open>value\<close> only; the model passes the value.
\<close>

text \<open>\<^verbatim>\<open>re.sub(r'[^\.\d]', '', value)\<close>\<close>

definition strip_non_numeric :: "string \<Rightarrow> string" where
  "strip_non_numeric v = filter (\<lambda>c. c = CHR ''.'' \<or> is_digit c) v"

definition format_number :: "string \<Rightarrow> error + pyval" where
  "format_number v =
     (let v' = strip_non_numeric v in
      if v' = [] then Inr VNone
      else (case py_float v' of
              Inr x \<Rightarrow> Inr (VFloat x)
            | Inl e \<Rightarrow> if e = ValueError then Inr VNone else Inl e))"

definition format_date :: "strptime_fn \<Rightarrow> fmp_importer \<Rightarrow> string \<Rightarrow> error + pyval" where
  "format_date sp imp v =
     (if v = [] then Inr VNone
      else bind (sp v (datefmt imp)) (\<lambda>(y, m, d).
           bind (datetime_date y m d) (\<lambda>dt. Inr (VDate dt))))"

text \<open>\<^verbatim>\<open>flexitime(value) or datetime.time()\<close>\<close>

definition format_time :: "string \<Rightarrow> error + pyval" where
  "format_time v =
     bind (flexitime v) (\<lambda>r.
       case r of
         None \<Rightarrow> Inr (VTime (Time 0 0 0))
       | Some t \<Rightarrow> if time_nonzero t then Inr (VTime t) else Inr (VTime (Time 0 0 0)))"

definition format_text :: "string \<Rightarrow> error + pyval" where
  "format_text v = Inr (VText (strip v))"

definition format_value :: "strptime_fn \<Rightarrow> fmp_importer \<Rightarrow> string \<Rightarrow> string \<Rightarrow> error + pyval" where
  "format_value sp imp kind v =
     (if kind = ''NUMBER'' then format_number v
      else if kind = ''DATE'' then format_date sp imp v
      else if kind = ''TIME'' then format_time v
      else format_text v)"

subsection \<open>Conversion of a row\<close>

text \<open>
  The loop of \<^verbatim>\<open>format_dict\<close> over the keys of \<^verbatim>\<open>dic\<close>. An exception leaves the loop; the
  handler of \<^verbatim>\<open>ValueError\<close> prints a line and raises the same exception again.
\<close>

fun format_keys ::
  "strptime_fn \<Rightarrow> fmp_importer \<Rightarrow> (string, string) odict \<Rightarrow> string list \<Rightarrow>
   (string, pyval) odict \<Rightarrow> error + (string, pyval) odict" where
  "format_keys sp imp dic [] new_dic = Inr new_dic"
| "format_keys sp imp dic (key # keys) new_dic =
     bind (od_get (fmp_fields imp) key) (\<lambda>(name, kind, maxrepeat, empty).
     bind (od_get dic key) (\<lambda>raw.
     bind (format_value sp imp kind raw) (\<lambda>val.
       format_keys sp imp dic keys (od_set new_dic key val))))"

definition format_dict ::
  "strptime_fn \<Rightarrow> fmp_importer \<Rightarrow> (string, string) odict \<Rightarrow> error + (string, pyval) odict" where
  "format_dict sp imp dic = format_keys sp imp dic (od_keys dic) []"

text \<open>\<^verbatim>\<open>[data.text for col in node.children for data in col.children]\<close>\<close>

definition row_values :: "(ref \<Rightarrow> xmlnode) \<Rightarrow> xmlnode \<Rightarrow> string list" where
  "row_values heap node =
     concat (map (\<lambda>col. map (\<lambda>data. node_text (heap data)) (node_children (heap col)))
                 (node_children node))"

definition format_node ::
  "strptime_fn \<Rightarrow> fmp_importer \<Rightarrow> (ref \<Rightarrow> xmlnode) \<Rightarrow> xmlnode \<Rightarrow> error + (string, pyval) odict" where
  "format_node sp imp heap node =
     format_dict sp imp (ordered_dict (zip (field_names imp) (row_values heap node)))"

section \<open>The content handler\<close>

text \<open>
  The state of an \<^verbatim>\<open>FMPXMLHandler\<close>: the store of node objects with the next free
  reference, the importer, the stack \<^verbatim>\<open>_depth\<close> (top at the end) and the lines printed.
\<close>

record fmp_handler =
  heap :: "ref \<Rightarrow> xmlnode"
  next_ref :: ref
  importer :: fmp_importer
  depth :: "ref list"
  stdout :: "string list"

text \<open>
  \<^verbatim>\<open>FMPXMLHandler(FMPImporter(datefmt))\<close>: the importer's \<^verbatim>\<open>DATABASE\<close> node is object 0.
\<close>

definition new_handler :: "string option \<Rightarrow> fmp_handler" where
  "new_handler f =
     \<lparr>heap = (\<lambda>_. XMLNode [] [])(0 := XMLNode ''DATABASE'' []), next_ref = 1,
      importer = new_importer f 0, depth = [], stdout = []\<rparr>"

definition current_node :: "fmp_handler \<Rightarrow> ref option" where
  "current_node h = (if depth h = [] then None else Some (last (depth h)))"

definition set_children :: "ref \<Rightarrow> ref list \<Rightarrow> fmp_handler \<Rightarrow> fmp_handler" where
  "set_children r cs h = h\<lparr>heap := (heap h)(r := (heap h r)\<lparr>node_children := cs\<rparr>)\<rparr>"

definition push_node :: "ref \<Rightarrow> fmp_handler \<Rightarrow> fmp_handler" where
  "push_node node h =
     (let h1 = (case current_node h of
                  None \<Rightarrow> h
                | Some cur \<Rightarrow> set_children cur (node_children (heap h cur) @ [node]) h)
      in h1\<lparr>depth := depth h1 @ [node]\<rparr>)"

definition pop_node :: "fmp_handler \<Rightarrow> error + ref \<times> fmp_handler" where
  "pop_node h =
     (if depth h = [] then Inl IndexError
      else Inr (last (depth h), h\<lparr>depth := butlast (depth h)\<rparr>))"

definition startElement :: "string \<Rightarrow> (string, string) odict \<Rightarrow> fmp_handler \<Rightarrow> fmp_handler" where
  "startElement name attrs h =
     (let node = next_ref h
      in push_node node (h\<lparr>heap := (heap h)(node := XMLNode name attrs), next_ref := node + 1\<rparr>))"

text \<open>\<^verbatim>\<open>import_node\<close> as the class has it: print the record identifier.\<close>

definition import_node :: "xmlnode \<Rightarrow> fmp_handler \<Rightarrow> error + fmp_handler" where
  "import_node node h =
     bind (attr node ''RECORDID'') (\<lambda>rid. Inr (h\<lparr>stdout := stdout h @ [rid]\<rparr>))"

definition endElement :: "string \<Rightarrow> fmp_handler \<Rightarrow> error + fmp_handler" where
  "endElement name h =
     bind (pop_node h) (\<lambda>(node, h1).
       if name = ''DATABASE'' then
         Inr (h1\<lparr>importer := add_database (importer h1) node\<rparr>)
       else if name = ''FIELD'' then
         bind (add_field (importer h1) (heap h1 node)) (\<lambda>imp. Inr (h1\<lparr>importer := imp\<rparr>))
       else if name = ''ROW'' then
         bind (import_node (heap h1 node) h1) (\<lambda>h2.
           case current_node h2 of
             None \<Rightarrow> Inl AttributeError
           | Some cur \<Rightarrow> Inr (set_children cur (butlast (node_children (heap h2 cur))) h2))
       else Inr h1)"

definition characters :: "string \<Rightarrow> fmp_handler \<Rightarrow> error + fmp_handler" where
  "characters content h =
     (case current_node h of
        None \<Rightarrow> Inl AttributeError
      | Some cur \<Rightarrow>
          if node_name (heap h cur) = ''ROW'' \<or> node_name (heap h cur) = ''COL''
             \<or> node_name (heap h cur) = ''DATA''
          then Inr (h\<lparr>heap := (heap h)(cur := (heap h cur)\<lparr>node_text := node_text (heap h cur) @ content\<rparr>)\<rparr>)
          else Inr h)"

text \<open>The parser calls the handler once for each event, in document order.\<close>

datatype event =
  StartElement string "(string, string) odict"
| EndElement string
| Characters string

fun handle :: "event \<Rightarrow> fmp_handler \<Rightarrow> error + fmp_handler" where
  "handle (StartElement name attrs) h = Inr (startElement name attrs h)"
| "handle (EndElement name) h = endElement name h"
| "handle (Characters content) h = characters content h"

fun parse :: "event list \<Rightarrow> fmp_handler \<Rightarrow> error + fmp_handler" where
  "parse [] h = Inr h"
| "parse (ev # evs) h = bind (handle ev h) (parse evs)"

text \<open>The header: \<^verbatim>\<open>add_field\<close> called for one field element after the other.\<close>

fun add_fields :: "fmp_importer \<Rightarrow> xmlnode list \<Rightarrow> error + fmp_importer" where
  "add_fields imp [] = Inr imp"
| "add_fields imp (node # nodes) = bind (add_field imp node) (\<lambda>imp'. add_fields imp' nodes)"

section \<open>Invariant of the node store\<close>

text \<open>
  Each open element but the outermost is the last child of the element opened before it.
\<close>

definition linked :: "(ref \<Rightarrow> xmlnode) \<Rightarrow> ref list \<Rightarrow> bool" where
  "linked hp st =
     (\<forall>i. Suc i < length st \<longrightarrow>
        node_children (hp (st ! i)) \<noteq> [] \<and> last (node_children (hp (st ! i))) = st ! Suc i)"

text \<open>
  References in use lie below the next free one, no open element is open twice, and a
  node is the child of at most one node, at most once.
\<close>

definition handler_inv :: "fmp_handler \<Rightarrow> bool" where
  "handler_inv h =
     (distinct (depth h)
      \<and> (\<forall>r \<in> set (depth h). r < next_ref h)
      \<and> (\<forall>a. \<forall>c \<in> set (node_children (heap h a)). c < next_ref h)
      \<and> (\<forall>a. distinct (node_children (heap h a)))
      \<and> (\<forall>a b c. c \<in> set (node_children (heap h a)) \<and> c \<in> set (node_children (heap h b)) \<longrightarrow> a = b)
      \<and> linked (heap h) (depth h))"

section \<open>Evaluation on concrete inputs\<close>

text \<open>
  The definitions to unfold when a function is run on a given input.
\<close>

lemmas char_class_defs = is_digit_def digit_val_def is_space_def lower_char_def one_of_def

lemmas flexitime_eval = char_class_defs strip_def lower_def digits_value_def py_int_def
  datetime_time_def seconds_group_def match_after_hours_def match_at_def is_pm_def
  time_of_groups_def flexitime_def

lemmas format_number_eval = char_class_defs digits_value_def py_float_def strip_non_numeric_def
  format_number_def

lemmas strptime_eval = char_class_defs digits_value_def strptime_def datetime_date_def
  days_in_month_def is_leap_def

lemmas handler_eval = bind_def od_get_def attr_def XMLNode_def new_handler_def new_importer_def
  datefmt_or_default_def DEFAULT_DATEFMT_def current_node_def set_children_def push_node_def
  pop_node_def startElement_def import_node_def endElement_def characters_def add_database_def

section \<open>Sequencing and dictionaries\<close>

lemma bind_Inr_iff: "bind r f = Inr y \<longleftrightarrow> (\<exists>x. r = Inr x \<and> f x = Inr y)"
  by (cases r) (simp_all add: bind_def)

lemma bind_simps [simp]: "bind (Inl e) f = Inl e" "bind (Inr x) f = f x"
  by (simp_all add: bind_def)

lemma od_keys_od_set:
  "od_keys (od_set d k v) = (if k \<in> set (od_keys d) then od_keys d else od_keys d @ [k])"
  by (induction d) (force simp: od_keys_def)+

lemma map_of_od_set: "map_of (od_set d k v) = (map_of d)(k \<mapsto> v)"
  by (induction d) (auto simp: fun_eq_iff)

lemma od_get_od_set: "od_get (od_set d k v) k' = (if k' = k then Inr v else od_get d k')"
  by (simp add: od_get_def map_of_od_set)

lemma od_set_append_new: "k \<notin> set (od_keys d) \<Longrightarrow> od_set d k v = d @ [(k, v)]"
  by (induction d) (auto simp: od_keys_def)

lemma ordered_dict_foldl:
  "distinct (map fst ps) \<Longrightarrow> set (map fst ps) \<inter> set (od_keys d) = {} \<Longrightarrow>
   foldl (\<lambda>d (k, v). od_set d k v) d ps = d @ ps"
proof (induction ps arbitrary: d)
  case Nil
  then show ?case by simp
next
  case (Cons p ps)
  obtain k v where p: "p = (k, v)" by (cases p)
  from Cons.prems have new: "k \<notin> set (od_keys d)" by (auto simp: p)
  have "foldl (\<lambda>d (k, v). od_set d k v) (od_set d k v) ps = od_set d k v @ ps"
    using Cons.prems new by (intro Cons.IH) (auto simp: p od_keys_od_set)
  then show ?case by (simp add: p od_set_append_new [OF new])
qed

lemma ordered_dict_distinct: "distinct (map fst ps) \<Longrightarrow> ordered_dict ps = ps"
  using ordered_dict_foldl [of ps "[]"] by (simp add: ordered_dict_def od_keys_def)

lemma od_get_nth:
  "distinct (od_keys d) \<Longrightarrow> i < length d \<Longrightarrow> od_get d (fst (d ! i)) = Inr (snd (d ! i))"
proof -
  assume a: "distinct (od_keys d)" "i < length d"
  then have "(fst (d ! i), snd (d ! i)) \<in> set d"
    by simp
  with a(1) have "map_of d (fst (d ! i)) = Some (snd (d ! i))"
    by (simp add: od_keys_def)
  then show ?thesis
    by (simp add: od_get_def)
qed

lemma take_min_length: "take (min (length xs) n) xs = take n xs"
  by (simp add: min_def)

lemma od_get_zip_nth:
  "distinct ks \<Longrightarrow> i < length ks \<Longrightarrow> i < length vs \<Longrightarrow> od_get (zip ks vs) (ks ! i) = Inr (vs ! i)"
proof -
  assume a: "distinct ks" "i < length ks" "i < length vs"
  have "distinct (map fst (zip ks vs))"
    using a(1) by (simp add: distinct_conv_nth)
  moreover have "(ks ! i, vs ! i) \<in> set (zip ks vs)"
    using a(2,3) by (auto simp: set_zip)
  ultimately show ?thesis
    by (simp add: od_get_def)
qed

lemma od_get_in_keys: "od_get d k = Inr v \<Longrightarrow> k \<in> set (od_keys d)"
  by (auto simp: od_get_def od_keys_def split: option.splits dest: map_of_SomeD intro: rev_image_eqI)

section \<open>Numbers\<close>

lemma strip_subset: "set (strip s) \<subseteq> set s"
proof -
  have "set (strip s) = set (dropWhile is_space (rev (dropWhile is_space s)))"
    by (simp add: strip_def)
  also have "\<dots> \<subseteq> set (rev (dropWhile is_space s))"
    by (auto dest: set_dropWhileD)
  also have "\<dots> \<subseteq> set s"
    by (auto dest: set_dropWhileD)
  finally show ?thesis .
qed

lemma dropWhile_id: "xs \<noteq> [] \<Longrightarrow> \<not> P (hd xs) \<Longrightarrow> dropWhile P xs = xs"
  by (cases xs) simp_all

lemma strip_id: "s \<noteq> [] \<Longrightarrow> \<not> is_space (hd s) \<Longrightarrow> \<not> is_space (last s) \<Longrightarrow> strip s = s"
  by (simp add: strip_def dropWhile_id hd_rev)

lemma digit_not_space: "is_digit c \<Longrightarrow> \<not> is_space c"
  by (auto simp: is_digit_def is_space_def)

lemma digit_not_sign: "is_digit c \<Longrightarrow> c \<noteq> CHR ''-'' \<and> c \<noteq> CHR ''+''"
  by (auto simp: is_digit_def)

lemma py_int_error: "py_int s = Inl e \<Longrightarrow> e = ValueError"
  by (auto simp: py_int_def split: list.splits if_splits)

lemma py_int_digits:
  assumes "d \<noteq> []" "list_all is_digit d"
  shows "py_int d = Inr (int (digits_value d))"
proof -
  from assms have "is_digit (hd d)" "is_digit (last d)"
    by (auto simp: list_all_iff)
  with assms have "strip d = d"
    by (intro strip_id) (auto dest: digit_not_space)
  moreover obtain c r where "d = c # r"
    using assms(1) by (cases d) auto
  ultimately show ?thesis
    using assms(2) digit_not_sign [of c] by (simp add: py_int_def)
qed

lemma py_int_needs_digit: "py_int s = Inr r \<Longrightarrow> list_ex is_digit s"
proof -
  assume a: "py_int s = Inr r"
  then obtain c where "c \<in> set (strip s)" "is_digit c"
    by (auto simp: py_int_def list_all_iff neq_Nil_conv split: list.splits if_splits)
  with strip_subset [of s] show ?thesis
    by (auto simp: list_ex_iff)
qed

lemma py_float_error: "py_float s = Inl e \<Longrightarrow> e = ValueError"
  by (auto simp: py_float_def Let_def split: list.splits if_splits)



text \<open>
  Claim C3. For every raw text of a NUMBER field, \<^verbatim>\<open>format_number\<close> keeps the digits and
  the points of the text and drops every other character; an empty remainder gives
  \<^verbatim>\<open>None\<close>; otherwise the remainder goes to \<^verbatim>\<open>float\<close>, whose result is the value, and
  whose failure gives \<^verbatim>\<open>None\<close> again. No exception leaves the function. The text
  \<^verbatim>\<open>$1,234.56\<close> gives 1234.56, and the empty text and \<^verbatim>\<open>abc\<close> give \<^verbatim>\<open>None\<close>.
\<close>

theorem format_number_strips_then_parses:
  "strip_non_numeric v = filter (\<lambda>c. c \<in> set ''0123456789.'') v
   \<and> format_number v =
       (if strip_non_numeric v = [] then Inr VNone
        else case py_float (strip_non_numeric v) of Inr x \<Rightarrow> Inr (VFloat x) | Inl e \<Rightarrow> Inr VNone)
   \<and> format_number v \<noteq> Inl e
   \<and> format_number ''$1,234.56'' = Inr (VFloat 1234.56)
   \<and> format_number '''' = Inr VNone
   \<and> format_number ''abc'' = Inr VNone"
proof -
  have a: "strip_non_numeric v = filter (\<lambda>c. c \<in> set ''0123456789.'') v"
    unfolding strip_non_numeric_def by (rule filter_cong) (auto simp: is_digit_def)
  have b: "format_number v =
       (if strip_non_numeric v = [] then Inr VNone
        else case py_float (strip_non_numeric v) of Inr x \<Rightarrow> Inr (VFloat x) | Inl e \<Rightarrow> Inr VNone)"
    by (auto simp: format_number_def Let_def split: sum.splits dest: py_float_error)
  have c: "format_number v \<noteq> Inl e"
    by (simp add: b split: sum.splits)
  have d: "format_number ''$1,234.56'' = Inr (VFloat 1234.56)"
    by (simp add: format_number_eval)
  have e: "format_number '''' = Inr VNone" "format_number ''abc'' = Inr VNone"
    by (simp_all add: format_number_eval)
  from a b c d e show ?thesis by blast
qed



section \<open>Times\<close>

text \<open>
  The groups of a match are one or two digits each, and the marker group, when it takes
  part, is one of the four spellings its two character classes allow.
\<close>

lemma digits12_digits: "(d, r) \<in> set (digits12 s) \<Longrightarrow> d \<noteq> [] \<and> length d \<le> 2 \<and> list_all is_digit d"
  by (induction s rule: digits12.induct) (auto split: if_splits)

lemma ampm_group_cases:
  "ampm_group s \<in> {None, Some ''AM'', Some ''Am'', Some ''pM'', Some ''pm''}"
  by (induction s rule: ampm_group.induct) auto

lemma match_after_hours_groups:
  assumes "match_after_hours h r = Some g"
  shows "hours g = h \<and> (minutes g \<noteq> [] \<and> length (minutes g) \<le> 2 \<and> list_all is_digit (minutes g))
     \<and> (\<forall>x. seconds g = Some x \<longrightarrow> x \<noteq> [] \<and> length x \<le> 2 \<and> list_all is_digit x)
     \<and> ampm g \<in> {None, Some ''AM'', Some ''Am'', Some ''pM'', Some ''pm''}"
proof -
  from assms obtain r1 m r2 alts sec r3 where
    1: "match_sep r = Some r1" "digits12 r1 = (m, r2) # alts" "seconds_group r2 = (sec, r3)"
    and g: "g = \<lparr>hours = h, minutes = m, seconds = sec, ampm = ampm_group (optional_space r3)\<rparr>"
    by (auto simp: match_after_hours_def split: option.splits list.splits prod.splits)
  from 1(2) have m: "m \<noteq> [] \<and> length m \<le> 2 \<and> list_all is_digit m"
    using digits12_digits [of m r2 r1] by simp
  have s: "\<forall>x. sec = Some x \<longrightarrow> x \<noteq> [] \<and> length x \<le> 2 \<and> list_all is_digit x"
  proof (intro allI impI)
    fix x assume "sec = Some x"
    with 1(3) obtain q q' alts' where "digits12 q = (x, q') # alts'"
      by (auto simp: seconds_group_def split: option.splits list.splits)
    then show "x \<noteq> [] \<and> length x \<le> 2 \<and> list_all is_digit x"
      using digits12_digits [of x q' q] by simp
  qed
  from m s ampm_group_cases [of "optional_space r3"] show ?thesis
    by (simp add: g)
qed

lemma first_match_groups:
  "first_match alts = Some g \<Longrightarrow> \<exists>(h, r) \<in> set alts. match_after_hours h r = Some g"
  by (induction alts rule: first_match.induct) (auto split: option.splits)

lemma match_at_groups:
  assumes "match_at s = Some g"
  shows "(hours g \<noteq> [] \<and> length (hours g) \<le> 2 \<and> list_all is_digit (hours g))
     \<and> (minutes g \<noteq> [] \<and> length (minutes g) \<le> 2 \<and> list_all is_digit (minutes g))
     \<and> (\<forall>x. seconds g = Some x \<longrightarrow> x \<noteq> [] \<and> length x \<le> 2 \<and> list_all is_digit x)
     \<and> ampm g \<in> {None, Some ''AM'', Some ''Am'', Some ''pM'', Some ''pm''}"
proof -
  from assms obtain h r where hr: "(h, r) \<in> set (digits12 s)" "match_after_hours h r = Some g"
    by (auto simp: match_at_def dest!: first_match_groups)
  from digits12_digits [OF hr(1)] match_after_hours_groups [OF hr(2)] show ?thesis
    by simp
qed

lemma pat_search_groups:
  "pat_search v = Some g \<Longrightarrow>
   (hours g \<noteq> [] \<and> length (hours g) \<le> 2 \<and> list_all is_digit (hours g))
     \<and> (minutes g \<noteq> [] \<and> length (minutes g) \<le> 2 \<and> list_all is_digit (minutes g))
     \<and> (\<forall>x. seconds g = Some x \<longrightarrow> x \<noteq> [] \<and> length x \<le> 2 \<and> list_all is_digit x)
     \<and> ampm g \<in> {None, Some ''AM'', Some ''Am'', Some ''pM'', Some ''pm''}"
proof (induction v)
  case Nil
  then show ?case by (simp add: match_at_def)
next
  case (Cons c cs)
  then show ?case
    by (cases "match_at (c # cs)") (auto dest: match_at_groups)
qed

lemma is_pm_captured:
  assumes "a \<in> {None, Some ''AM'', Some ''Am'', Some ''pM'', Some ''pm''}"
  shows "is_pm a \<longleftrightarrow> a = Some ''pm'' \<or> a = Some ''pM''"
  using assms by (auto simp: is_pm_def lower_def lower_char_def)

text \<open>
  On a match the two-digit groups always convert, and the hour is brought into range
  before the time is built; what is left to fail is the minute or the second.
\<close>

lemma flexitime_matched:
  assumes "pat_search v = Some g"
  shows "flexitime v =
     (let h = int (digits_value (hours g));
          m = int (digits_value (minutes g));
          s = (case seconds g of None \<Rightarrow> 0 | Some x \<Rightarrow> int (digits_value x));
          h1 = (if is_pm (ampm g) \<and> h < 12 then h + 12 else h);
          h2 = (if h1 > 23 then 0 else h1)
      in if m \<le> 59 \<and> s \<le> 59 then Inr (Some (Time h2 m s)) else Inl ValueError)"
proof -
  from pat_search_groups [OF assms] have
    h: "hours g \<noteq> []" "list_all is_digit (hours g)" and
    m: "minutes g \<noteq> []" "list_all is_digit (minutes g)" and
    s: "\<And>x. seconds g = Some x \<Longrightarrow> x \<noteq> [] \<and> list_all is_digit x"
    by auto
  have "py_int (hours g) = Inr (int (digits_value (hours g)))"
    "py_int (minutes g) = Inr (int (digits_value (minutes g)))"
    using h m by (simp_all add: py_int_digits)
  moreover have "(case seconds g of None \<Rightarrow> Inr 0 | Some x \<Rightarrow> py_int x) =
      Inr (case seconds g of None \<Rightarrow> 0 | Some x \<Rightarrow> int (digits_value x))"
    using s by (cases "seconds g") (simp_all add: py_int_digits)
  moreover have "0 \<le> (case seconds g of None \<Rightarrow> 0 | Some x \<Rightarrow> int (digits_value x))"
    by (cases "seconds g") simp_all
  ultimately show ?thesis
    using assms by (auto simp: flexitime_def time_of_groups_def Let_def datetime_time_def)
qed

lemma flexitime_raises_iff:
  "flexitime v = Inl e \<longleftrightarrow>
     e = ValueError \<and>
     (\<exists>g. pat_search v = Some g \<and>
        (59 < digits_value (minutes g) \<or> (\<exists>x. seconds g = Some x \<and> 59 < digits_value x)))"
proof (cases "pat_search v")
  case None
  then show ?thesis by (simp add: flexitime_def)
next
  case (Some g)
  show ?thesis
    unfolding flexitime_matched [OF Some] Some
    by (cases "seconds g") (auto simp: Let_def)
qed

text \<open>
  Claim C1 says that \<^verbatim>\<open>flexitime\<close> returns a time or nothing for every string and never
  raises. On the text \<^verbatim>\<open>3:99\<close> the pattern matches with minute 99, the constructor
  of the time rejects the minute, and \<^verbatim>\<open>ValueError\<close> leaves the function.
\<close>

theorem flexitime_raises_value_error: "flexitime ''3:99'' = Inl ValueError"
  by (simp add: flexitime_eval)

text \<open>
  Claim C2 says that 12 is added to the hour whenever a pm marker is present and the
  parsed hour is below 12. On the text \<^verbatim>\<open>3:30 PM\<close> the class \<^verbatim>\<open>[Ap]\<close> of the pattern does
  not take the upper-case \<^verbatim>\<open>P\<close>, so no marker is captured and the hour stays 3, although
  the code lowers the marker before it compares it with \<^verbatim>\<open>pm\<close>. The same time with the
  marker \<^verbatim>\<open>pm\<close> is 15:30:00.
\<close>

theorem flexitime_upper_case_pm_not_added:
  "flexitime ''3:30 PM'' = Inr (Some (Time 3 30 0))
   \<and> flexitime ''3:30 pm'' = Inr (Some (Time 15 30 0))"
  by (simp add: flexitime_eval)

text \<open>
  The time returned for a match, read off the groups the pattern captured, and the times
  of some texts.
\<close>

lemma flexitime_time_of_match:
  assumes "pat_search v = Some g" and "flexitime v = Inr (Some t)"
  shows "second t = (case seconds g of None \<Rightarrow> 0 | Some x \<Rightarrow> int (digits_value x))
     \<and> minute t = int (digits_value (minutes g))
     \<and> hour t =
         (let h = int (digits_value (hours g));
              h1 = (if (ampm g = Some ''pm'' \<or> ampm g = Some ''pM'') \<and> h < 12 then h + 12 else h)
          in if h1 > 23 then 0 else h1)
     \<and> (ampm g = Some ''AM'' \<or> ampm g = Some ''Am'' \<longrightarrow>
          hour t = (if int (digits_value (hours g)) > 23 then 0 else int (digits_value (hours g))))
     \<and> flexitime ''12:00 AM'' = Inr (Some (Time 12 0 0))
     \<and> flexitime ''12:00:00'' = Inr (Some (Time 12 0 0))
     \<and> flexitime ''3:30 pm'' = Inr (Some (Time 15 30 0))
     \<and> flexitime ''3.3pm'' = Inr (Some (Time 15 3 0))
     \<and> flexitime ''24:00'' = Inr (Some (Time 0 0 0))
     \<and> flexitime ''undefined'' = Inr None
     \<and> flexitime [] = Inr None"
proof -
  from pat_search_groups [OF assms(1)]
  have pm: "is_pm (ampm g) \<longleftrightarrow> ampm g = Some ''pm'' \<or> ampm g = Some ''pM''"
    by (intro is_pm_captured) simp
  from assms(2) have t: "second t = (case seconds g of None \<Rightarrow> 0 | Some x \<Rightarrow> int (digits_value x))"
    "minute t = int (digits_value (minutes g))"
    "hour t =
         (let h = int (digits_value (hours g));
              h1 = (if (ampm g = Some ''pm'' \<or> ampm g = Some ''pM'') \<and> h < 12 then h + 12 else h)
          in if h1 > 23 then 0 else h1)"
    unfolding flexitime_matched [OF assms(1)] pm
    by (auto simp: Let_def split: if_splits)
  from t(3) have am: "ampm g = Some ''AM'' \<or> ampm g = Some ''Am'' \<longrightarrow>
          hour t = (if int (digits_value (hours g)) > 23 then 0 else int (digits_value (hours g)))"
    by (auto simp: Let_def)
  have ex: "flexitime ''12:00 AM'' = Inr (Some (Time 12 0 0))"
     "flexitime ''12:00:00'' = Inr (Some (Time 12 0 0))"
     "flexitime ''3:30 pm'' = Inr (Some (Time 15 30 0))"
     "flexitime ''3.3pm'' = Inr (Some (Time 15 3 0))"
     "flexitime ''24:00'' = Inr (Some (Time 0 0 0))"
     "flexitime ''undefined'' = Inr None"
     "flexitime [] = Inr None"
    by (simp_all add: flexitime_eval)
  from t am ex show ?thesis by blast
qed

text \<open>
  Claim C5. For every raw text of a TIME field on which \<^verbatim>\<open>flexitime\<close> returns
  \<^verbatim>\<open>None\<close>, \<^verbatim>\<open>format_time\<close> returns midnight; the empty text is such a text. NUMBER and
  DATE conversion return \<^verbatim>\<open>None\<close> for the empty text instead.
\<close>

theorem format_time_defaults_to_midnight:
  assumes "flexitime v = Inr None"
  shows "format_time v = Inr (VTime (Time 0 0 0))
     \<and> format_time [] = Inr (VTime (Time 0 0 0))
     \<and> format_number [] = Inr VNone
     \<and> format_date sp imp [] = Inr VNone"
  using assms
  by (simp add: format_time_def format_number_def format_date_def strip_non_numeric_def
      flexitime_def match_at_def)

theorem format_time_defaults_to_midnight_witness:
  "flexitime ''undefined'' = Inr None \<and> format_time ''undefined'' = Inr (VTime (Time 0 0 0))"
proof -
  have h: "flexitime ''undefined'' = Inr None"
    by (simp add: flexitime_eval)
  from format_time_defaults_to_midnight [OF h] have "format_time ''undefined'' = Inr (VTime (Time 0 0 0))"
    by blast
  with h show ?thesis by blast
qed

section \<open>The field registry\<close>

lemma add_field_Inr:
  "add_field imp node = Inr imp' \<Longrightarrow>
   \<exists>n k m r e. attr node ''NAME'' = Inr n \<and> attr node ''TYPE'' = Inr k \<and> attr node ''MAXREPEAT'' = Inr m
     \<and> py_int m = Inr r \<and> attr node ''EMPTYOK'' = Inr e
     \<and> imp' = imp\<lparr>fmp_fields := od_set (fmp_fields imp) n (n, k, r, e = ''YES'')\<rparr>"
  by (auto simp: add_field_def bind_Inr_iff)

lemma add_field_names:
  "add_field imp node = Inr imp' \<Longrightarrow>
   \<exists>n. attr node ''NAME'' = Inr n \<and>
     field_names imp' = (if n \<in> set (field_names imp) then field_names imp else field_names imp @ [n])"
  by (auto dest!: add_field_Inr simp: field_names_def od_keys_od_set)

lemma add_field_distinct:
  "add_field imp node = Inr imp' \<Longrightarrow> distinct (field_names imp) \<Longrightarrow> distinct (field_names imp')"
  by (auto dest!: add_field_names split: if_splits)

lemma add_fields_distinct:
  "add_fields imp nodes = Inr imp' \<Longrightarrow> distinct (field_names imp) \<Longrightarrow> distinct (field_names imp')"
  by (induction nodes arbitrary: imp) (auto simp: bind_Inr_iff dest: add_field_distinct)

lemma remdups_snoc: "remdups (ys @ [x]) = filter (\<lambda>y. y \<noteq> x) (remdups ys) @ [x]"
  by (induction ys) auto

lemma first_occurrences_Cons:
  "rev (remdups (rev (x # xs))) = x # filter (\<lambda>y. y \<noteq> x) (rev (remdups (rev xs)))"
  by (simp add: remdups_snoc rev_filter)

lemma add_fields_names:
  "add_fields imp nodes = Inr imp' \<Longrightarrow>
   \<exists>names. map (\<lambda>node. attr node ''NAME'') nodes = map Inr names \<and>
     field_names imp' =
       field_names imp @ filter (\<lambda>n. n \<notin> set (field_names imp)) (rev (remdups (rev names)))"
proof (induction nodes arbitrary: imp)
  case Nil
  then show ?case by simp
next
  case (Cons node nodes)
  from Cons.prems obtain imp1 where
    1: "add_field imp node = Inr imp1" and 2: "add_fields imp1 nodes = Inr imp'"
    by (auto simp: bind_Inr_iff)
  from add_field_names [OF 1] obtain n where
    n: "attr node ''NAME'' = Inr n"
       "field_names imp1 = (if n \<in> set (field_names imp) then field_names imp else field_names imp @ [n])"
    by blast
  from Cons.IH [OF 2] obtain names where
    names: "map (\<lambda>node. attr node ''NAME'') nodes = map Inr names"
      "field_names imp' =
       field_names imp1 @ filter (\<lambda>n. n \<notin> set (field_names imp1)) (rev (remdups (rev names)))"
    by blast
  have "field_names imp' =
       field_names imp @ filter (\<lambda>n. n \<notin> set (field_names imp)) (rev (remdups (rev (n # names))))"
    unfolding first_occurrences_Cons names(2) n(2)
    by (auto intro: filter_cong)
  moreover have "map (\<lambda>node. attr node ''NAME'') (node # nodes) = map Inr (n # names)"
    using n(1) names(1) by simp
  ultimately show ?case by blast
qed

text \<open>
  Claim C8. For a field element that has the four attributes, \<^verbatim>\<open>add_field\<close> passes
  \<^verbatim>\<open>MAXREPEAT\<close> to \<^verbatim>\<open>int\<close>. When that returns a number, the tuple of name, type,
  number and the truth of \<^verbatim>\<open>EMPTYOK == 'YES'\<close> is stored under the name and nothing else
  of the importer changes. When it does not, \<^verbatim>\<open>add_field\<close> raises \<^verbatim>\<open>ValueError\<close>; this is
  so for every text without a digit. A text of digits only is always a number.
\<close>

theorem add_field_extracts_attributes:
  assumes "attr node ''NAME'' = Inr n" and "attr node ''TYPE'' = Inr k"
    and "attr node ''MAXREPEAT'' = Inr m" and "attr node ''EMPTYOK'' = Inr e"
  shows "(\<forall>r. py_int m = Inr r \<longrightarrow>
            (\<exists>imp'. add_field imp node = Inr imp'
               \<and> fmp_fields imp' = od_set (fmp_fields imp) n (n, k, r, e = ''YES'')
               \<and> od_get (fmp_fields imp') n = Inr (n, k, r, e = ''YES'')
               \<and> datefmt imp' = datefmt imp \<and> database imp' = database imp))
      \<and> ((\<forall>r. py_int m \<noteq> Inr r) \<longrightarrow> add_field imp node = Inl ValueError)
      \<and> (\<not> list_ex is_digit m \<longrightarrow> add_field imp node = Inl ValueError)
      \<and> (m \<noteq> [] \<and> list_all is_digit m \<longrightarrow> py_int m = Inr (int (digits_value m)))"
proof (intro conjI allI impI)
  fix r assume "py_int m = Inr r"
  with assms show "\<exists>imp'. add_field imp node = Inr imp'
               \<and> fmp_fields imp' = od_set (fmp_fields imp) n (n, k, r, e = ''YES'')
               \<and> od_get (fmp_fields imp') n = Inr (n, k, r, e = ''YES'')
               \<and> datefmt imp' = datefmt imp \<and> database imp' = database imp"
    by (simp add: add_field_def od_get_od_set)
next
  assume "\<forall>r. py_int m \<noteq> Inr r"
  then obtain err where "py_int m = Inl err"
    by (cases "py_int m") auto
  with py_int_error [OF this] assms show "add_field imp node = Inl ValueError"
    by (simp add: add_field_def)
next
  assume "\<not> list_ex is_digit m"
  with py_int_needs_digit [of m] have "\<forall>r. py_int m \<noteq> Inr r"
    by blast
  then obtain err where "py_int m = Inl err"
    by (cases "py_int m") auto
  with py_int_error [OF this] assms show "add_field imp node = Inl ValueError"
    by (simp add: add_field_def)
next
  assume "m \<noteq> [] \<and> list_all is_digit m"
  then show "py_int m = Inr (int (digits_value m))"
    by (simp add: py_int_digits)
qed

theorem add_field_extracts_attributes_witness:
  "od_get (fmp_fields (projr (add_field (new_importer None 0)
        (XMLNode ''FIELD'' [(''NAME'', ''Qty''), (''TYPE'', ''NUMBER''), (''MAXREPEAT'', ''3''), (''EMPTYOK'', ''YES'')])))) ''Qty''
     = Inr (''Qty'', ''NUMBER'', 3, True)
   \<and> add_field (new_importer None 0)
        (XMLNode ''FIELD'' [(''NAME'', ''Qty''), (''TYPE'', ''NUMBER''), (''MAXREPEAT'', ''many''), (''EMPTYOK'', ''NO'')])
     = Inl ValueError"
proof -
  let ?good = "XMLNode ''FIELD'' [(''NAME'', ''Qty''), (''TYPE'', ''NUMBER''), (''MAXREPEAT'', ''3''), (''EMPTYOK'', ''YES'')]"
  let ?bad = "XMLNode ''FIELD'' [(''NAME'', ''Qty''), (''TYPE'', ''NUMBER''), (''MAXREPEAT'', ''many''), (''EMPTYOK'', ''NO'')]"
  have g: "attr ?good ''NAME'' = Inr ''Qty''" "attr ?good ''TYPE'' = Inr ''NUMBER''"
      "attr ?good ''MAXREPEAT'' = Inr ''3''" "attr ?good ''EMPTYOK'' = Inr ''YES''"
    by (simp_all add: handler_eval)
  have b: "attr ?bad ''NAME'' = Inr ''Qty''" "attr ?bad ''TYPE'' = Inr ''NUMBER''"
      "attr ?bad ''MAXREPEAT'' = Inr ''many''" "attr ?bad ''EMPTYOK'' = Inr ''NO''"
    by (simp_all add: handler_eval)
  have i3: "py_int ''3'' = Inr 3"
    by (simp add: flexitime_eval)
  have nd: "\<not> list_ex is_digit ''many''"
    by (simp add: is_digit_def)
  from add_field_extracts_attributes [OF g, of "new_importer None 0"] i3
  obtain imp' where "add_field (new_importer None 0) ?good = Inr imp'"
    "od_get (fmp_fields imp') ''Qty'' = Inr (''Qty'', ''NUMBER'', 3, True)"
    by auto
  then have 1: "od_get (fmp_fields (projr (add_field (new_importer None 0) ?good))) ''Qty''
     = Inr (''Qty'', ''NUMBER'', 3, True)"
    by simp
  from add_field_extracts_attributes [OF b, of "new_importer None 0"] nd
  have 2: "add_field (new_importer None 0) ?bad = Inl ValueError"
    by blast
  from 1 2 show ?thesis by blast
qed

section \<open>Rows\<close>

lemma format_keys_Inr:
  "format_keys sp imp dic keys acc = Inr rec \<Longrightarrow> distinct keys \<Longrightarrow>
   set keys \<inter> set (od_keys acc) = {} \<Longrightarrow>
   \<exists>vals. rec = acc @ zip keys vals \<and>
     list_all2 (\<lambda>key val. \<exists>nm kind mr em raw.
        od_get (fmp_fields imp) key = Inr (nm, kind, mr, em) \<and> od_get dic key = Inr raw \<and>
        format_value sp imp kind raw = Inr val) keys vals"
proof (induction keys arbitrary: acc)
  case Nil
  then show ?case by simp
next
  case (Cons key keys)
  from Cons.prems(1) obtain nm kind mr em raw val where
    f: "od_get (fmp_fields imp) key = Inr (nm, kind, mr, em)" and
    r: "od_get dic key = Inr raw" and
    v: "format_value sp imp kind raw = Inr val" and
    rest: "format_keys sp imp dic keys (od_set acc key val) = Inr rec"
    by (auto simp: bind_Inr_iff)
  from Cons.prems have new: "key \<notin> set (od_keys acc)" by auto
  have acc': "od_set acc key val = acc @ [(key, val)]"
    by (rule od_set_append_new [OF new])
  from Cons.prems have "distinct keys" "set keys \<inter> set (od_keys (od_set acc key val)) = {}"
    by (auto simp: od_keys_od_set)
  from Cons.IH [OF rest this] obtain vals where
    vals: "rec = od_set acc key val @ zip keys vals"
      "list_all2 (\<lambda>key val. \<exists>nm kind mr em raw.
        od_get (fmp_fields imp) key = Inr (nm, kind, mr, em) \<and> od_get dic key = Inr raw \<and>
        format_value sp imp kind raw = Inr val) keys vals"
    by blast
  show ?case
  proof (intro exI conjI)
    show "rec = acc @ zip (key # keys) (val # vals)"
      by (simp add: vals(1) acc')
    show "list_all2 (\<lambda>key val. \<exists>nm kind mr em raw.
        od_get (fmp_fields imp) key = Inr (nm, kind, mr, em) \<and> od_get dic key = Inr raw \<and>
        format_value sp imp kind raw = Inr val) (key # keys) (val # vals)"
      using f r v vals(2) by auto
  qed
qed

lemma format_keys_success:
  "list_all2 (\<lambda>key val. \<exists>nm kind mr em raw.
        od_get (fmp_fields imp) key = Inr (nm, kind, mr, em) \<and> od_get dic key = Inr raw \<and>
        format_value sp imp kind raw = Inr val) keys vals \<Longrightarrow>
   distinct keys \<Longrightarrow> set keys \<inter> set (od_keys acc) = {} \<Longrightarrow>
   format_keys sp imp dic keys acc = Inr (acc @ zip keys vals)"
proof (induction keys vals arbitrary: acc rule: list_all2_induct)
  case Nil
  then show ?case by simp
next
  case (Cons key keys val vals)
  from Cons.prems have new: "key \<notin> set (od_keys acc)" by auto
  have acc': "od_set acc key val = acc @ [(key, val)]"
    by (rule od_set_append_new [OF new])
  from Cons.prems have "distinct keys" "set keys \<inter> set (od_keys (od_set acc key val)) = {}"
    by (auto simp: od_keys_od_set)
  from Cons.IH [OF this] Cons.hyps(1) show ?case
    by (auto simp: acc')
qed

lemma format_keys_Inl:
  "format_keys sp imp dic keys acc = Inl e \<Longrightarrow>
   \<exists>key \<in> set keys.
      od_get (fmp_fields imp) key = Inl e \<or> od_get dic key = Inl e \<or>
      (\<exists>nm kind mr em raw. od_get (fmp_fields imp) key = Inr (nm, kind, mr, em) \<and>
          od_get dic key = Inr raw \<and> format_value sp imp kind raw = Inl e)"
proof (induction keys arbitrary: acc)
  case Nil
  then show ?case by simp
next
  case (Cons key keys)
  show ?case
  proof (cases "od_get (fmp_fields imp) key")
    case (Inl e')
    with Cons.prems show ?thesis by simp
  next
    case f: (Inr fd)
    obtain nm kind mr em where fd: "fd = (nm, kind, mr, em)" by (cases fd)
    show ?thesis
    proof (cases "od_get dic key")
      case (Inl e')
      with Cons.prems f show ?thesis by (simp add: fd)
    next
      case r: (Inr raw)
      show ?thesis
      proof (cases "format_value sp imp kind raw")
        case (Inl e')
        with Cons.prems f r show ?thesis by (simp add: fd)
      next
        case (Inr val)
        with Cons.prems f r have "format_keys sp imp dic keys (od_set acc key val) = Inl e"
          by (simp add: fd)
        from Cons.IH [OF this] show ?thesis by auto
      qed
    qed
  qed
qed

lemma format_keys_Inr_key:
  "format_keys sp imp dic keys acc = Inr rec \<Longrightarrow> key \<in> set keys \<Longrightarrow>
   \<exists>nm kind mr em raw val. od_get (fmp_fields imp) key = Inr (nm, kind, mr, em) \<and>
      od_get dic key = Inr raw \<and> format_value sp imp kind raw = Inr val"
proof (induction keys arbitrary: acc)
  case Nil
  then show ?case by simp
next
  case (Cons k keys)
  from Cons.prems(1) obtain nm kind mr em raw val where
    f: "od_get (fmp_fields imp) k = Inr (nm, kind, mr, em)" "od_get dic k = Inr raw"
       "format_value sp imp kind raw = Inr val" and
    rest: "format_keys sp imp dic keys (od_set acc k val) = Inr rec"
    by (auto simp: bind_Inr_iff)
  show ?case
  proof (cases "key = k")
    case True
    with f show ?thesis by blast
  next
    case False
    with Cons.prems(2) have "key \<in> set keys" by simp
    from Cons.IH [OF rest this] show ?thesis .
  qed
qed

lemma format_node_eq:
  "distinct (field_names imp) \<Longrightarrow>
   format_node sp imp hp row =
     format_keys sp imp (zip (field_names imp) (row_values hp row))
       (take (length (row_values hp row)) (field_names imp)) []"
proof -
  assume d: "distinct (field_names imp)"
  have "distinct (map fst (zip (field_names imp) (row_values hp row)))"
    using d by (simp add: map_fst_zip_take)
  then show ?thesis
    by (simp add: format_node_def format_dict_def ordered_dict_distinct od_keys_def
        map_fst_zip_take take_min_length)
qed

text \<open>
  A row converts exactly when every paired value converts, field by field.
\<close>

lemma format_node_Inr_iff:
  assumes "distinct (field_names imp)"
  shows "format_node sp imp hp row = Inr rec \<longleftrightarrow>
    list_all2 (\<lambda>(key, val) ((key', nm, kind, mr, em), raw).
        key = key' \<and> format_value sp imp kind raw = Inr val)
      rec (zip (fmp_fields imp) (row_values hp row))"
  (is "?L \<longleftrightarrow> ?R")
proof -
  let ?names = "field_names imp" and ?vals = "row_values hp row"
  let ?n = "min (length ?names) (length ?vals)"
  let ?keys = "take (length ?vals) ?names"
  let ?dic = "zip ?names ?vals"
  let ?P = "\<lambda>key val. \<exists>nm kind mr em raw.
        od_get (fmp_fields imp) key = Inr (nm, kind, mr, em) \<and> od_get ?dic key = Inr raw \<and>
        format_value sp imp kind raw = Inr val"
  have len: "length ?names = length (fmp_fields imp)"
    by (simp add: field_names_def od_keys_def)
  have dk: "distinct ?keys"
    using assms by simp
  have lookup: "\<And>i. i < ?n \<Longrightarrow>
      od_get (fmp_fields imp) (?keys ! i) = Inr (snd (fmp_fields imp ! i)) \<and>
      od_get ?dic (?keys ! i) = Inr (?vals ! i)"
  proof -
    fix i assume i: "i < ?n"
    then have "?keys ! i = fst (fmp_fields imp ! i)"
      by (simp add: field_names_def od_keys_def)
    moreover have "od_get (fmp_fields imp) (fst (fmp_fields imp ! i)) = Inr (snd (fmp_fields imp ! i))"
      using assms i len by (intro od_get_nth) (simp_all add: field_names_def)
    moreover have "od_get ?dic (?names ! i) = Inr (?vals ! i)"
      using assms i by (intro od_get_zip_nth) simp_all
    ultimately show "od_get (fmp_fields imp) (?keys ! i) = Inr (snd (fmp_fields imp ! i)) \<and>
      od_get ?dic (?keys ! i) = Inr (?vals ! i)"
      using i by simp
  qed
  have eq: "format_node sp imp hp row = format_keys sp imp ?dic ?keys []"
    by (rule format_node_eq [OF assms])
  show ?thesis
  proof
    assume ?L
    with eq have "format_keys sp imp ?dic ?keys [] = Inr rec" by simp
    from format_keys_Inr [OF this dk] obtain vs where
      vs: "rec = zip ?keys vs" "list_all2 ?P ?keys vs"
      by (auto simp: od_keys_def)
    from vs(2) have lv: "length vs = ?n"
      by (auto dest: list_all2_lengthD simp: min.commute)
    show ?R
    proof (rule list_all2_all_nthI)
      show "length rec = length (zip (fmp_fields imp) ?vals)"
        using lv len by (simp add: vs(1))
    next
      fix i assume "i < length rec"
      then have i: "i < ?n" using lv by (simp add: vs(1))
      from list_all2_nthD [OF vs(2), of i] i have "?P (?keys ! i) (vs ! i)"
        by simp
      with lookup [OF i] obtain nm kind mr em where
        "snd (fmp_fields imp ! i) = (nm, kind, mr, em)"
        "format_value sp imp kind (?vals ! i) = Inr (vs ! i)"
        by auto
      moreover have "fst (fmp_fields imp ! i) = ?keys ! i"
        using i by (simp add: field_names_def od_keys_def)
      moreover have "rec ! i = (?keys ! i, vs ! i)"
        using i lv by (simp add: vs(1))
      ultimately show "(\<lambda>(key, val) ((key', nm, kind, mr, em), raw).
        key = key' \<and> format_value sp imp kind raw = Inr val) (rec ! i) (zip (fmp_fields imp) ?vals ! i)"
        using i len by (cases "fmp_fields imp ! i") auto
    qed
  next
    assume R: ?R
    then have lr: "length rec = ?n"
      using len by (auto dest: list_all2_lengthD)
    have "list_all2 ?P ?keys (map snd rec)"
    proof (rule list_all2_all_nthI)
      show "length ?keys = length (map snd rec)"
        using lr by (simp add: min.commute)
    next
      fix i assume "i < length ?keys"
      then have i: "i < ?n" by simp
      from list_all2_nthD [OF R, of i] i lr len
      have "(\<lambda>(key, val) ((key', nm, kind, mr, em), raw).
        key = key' \<and> format_value sp imp kind raw = Inr val) (rec ! i) (fmp_fields imp ! i, ?vals ! i)"
        by simp
      then obtain nm kind mr em where
        "fmp_fields imp ! i = (fst (rec ! i), nm, kind, mr, em)"
        "format_value sp imp kind (?vals ! i) = Inr (snd (rec ! i))"
        by (cases "rec ! i"; cases "fmp_fields imp ! i") auto
      with lookup [OF i] show "?P (?keys ! i) (map snd rec ! i)"
        using i lr by auto
    qed
    from format_keys_success [OF this dk, of "[]"]
    have "format_keys sp imp ?dic ?keys [] = Inr (zip ?keys (map snd rec))"
      by (simp add: od_keys_def)
    moreover have "zip ?keys (map snd rec) = rec"
    proof (rule nth_equalityI)
      show "length (zip ?keys (map snd rec)) = length rec"
        using lr by simp
    next
      fix i assume "i < length (zip ?keys (map snd rec))"
      then have i: "i < ?n" using lr by simp
      from list_all2_nthD [OF R, of i] i lr len
      have "(\<lambda>(key, val) ((key', nm, kind, mr, em), raw).
        key = key' \<and> format_value sp imp kind raw = Inr val) (rec ! i) (fmp_fields imp ! i, ?vals ! i)"
        by simp
      then have "fst (rec ! i) = fst (fmp_fields imp ! i)"
        by (cases "rec ! i"; cases "fmp_fields imp ! i") auto
      then show "zip ?keys (map snd rec) ! i = rec ! i"
        using i lr by (simp add: field_names_def od_keys_def prod_eq_iff)
    qed
    ultimately show ?L
      using eq by simp
  qed
qed

lemma format_node_Inl:
  assumes "distinct (field_names imp)" and "format_node sp imp hp row = Inl e"
  shows "\<exists>i < min (length (field_names imp)) (length (row_values hp row)).
           \<exists>nm kind mr em. snd (fmp_fields imp ! i) = (nm, kind, mr, em) \<and>
             format_value sp imp kind (row_values hp row ! i) = Inl e"
proof -
  let ?names = "field_names imp" and ?vals = "row_values hp row"
  let ?n = "min (length ?names) (length ?vals)"
  let ?keys = "take (length ?vals) ?names"
  let ?dic = "zip ?names ?vals"
  from assms have "format_keys sp imp ?dic ?keys [] = Inl e"
    by (simp add: format_node_eq)
  from format_keys_Inl [OF this] obtain key where
    key: "key \<in> set ?keys"
      "od_get (fmp_fields imp) key = Inl e \<or> od_get ?dic key = Inl e \<or>
      (\<exists>nm kind mr em raw. od_get (fmp_fields imp) key = Inr (nm, kind, mr, em) \<and>
          od_get ?dic key = Inr raw \<and> format_value sp imp kind raw = Inl e)"
    by blast
  from key(1) obtain i where i: "i < ?n" "key = ?names ! i"
    by (auto simp: in_set_conv_nth)
  have len: "length ?names = length (fmp_fields imp)"
    by (simp add: field_names_def od_keys_def)
  have "?names ! i = fst (fmp_fields imp ! i)"
    using i len by (simp add: field_names_def od_keys_def)
  moreover have "od_get (fmp_fields imp) (fst (fmp_fields imp ! i)) = Inr (snd (fmp_fields imp ! i))"
    using assms(1) i len by (intro od_get_nth) (simp_all add: field_names_def)
  ultimately have f: "od_get (fmp_fields imp) key = Inr (snd (fmp_fields imp ! i))"
    using i by simp
  have d: "od_get ?dic key = Inr (?vals ! i)"
    unfolding i(2) using assms(1) i by (intro od_get_zip_nth) simp_all
  from key(2) f d show ?thesis
    using i(1) by auto
qed

text \<open>
  Claim C7. After any sequence of \<^verbatim>\<open>add_field\<close> calls on a new importer,
  \<^verbatim>\<open>field_names\<close> is the list of the names added, each at the place of its first
  addition; when no name is added twice it is the list of names as added. A row converts to
  a record exactly when the record pairs the field definitions with the data values of the
  row position by position, each value converted by the type of its field.
\<close>

theorem field_names_declaration_order:
  assumes "add_fields (new_importer f db) nodes = Inr imp"
  shows "\<exists>names. map (\<lambda>node. attr node ''NAME'') nodes = map Inr names
     \<and> field_names imp = rev (remdups (rev names))
     \<and> (distinct names \<longrightarrow> field_names imp = names)
     \<and> (\<forall>rec. format_node sp imp hp row = Inr rec \<longleftrightarrow>
           list_all2 (\<lambda>(key, val) ((key', nm, kind, mr, em), raw).
               key = key' \<and> format_value sp imp kind raw = Inr val)
             rec (zip (fmp_fields imp) (row_values hp row)))"
proof -
  have init: "field_names (new_importer f db) = []"
    by (simp add: field_names_def new_importer_def od_keys_def)
  from add_fields_names [OF assms] obtain names where
    names: "map (\<lambda>node. attr node ''NAME'') nodes = map Inr names"
      "field_names imp = rev (remdups (rev names))"
    by (auto simp: init)
  have "distinct names \<longrightarrow> field_names imp = names"
    by (simp add: names(2) distinct_remdups_id)
  moreover have "distinct (field_names imp)"
    using add_fields_distinct [OF assms] by (simp add: init)
  ultimately show ?thesis
    using names format_node_Inr_iff [of imp sp hp row] by blast
qed

theorem field_names_declaration_order_witness:
  "\<exists>imp. add_fields (new_importer None 0)
       [XMLNode ''FIELD'' [(''NAME'', ''A''), (''TYPE'', ''TEXT''), (''MAXREPEAT'', ''1''), (''EMPTYOK'', ''YES'')],
        XMLNode ''FIELD'' [(''NAME'', ''B''), (''TYPE'', ''NUMBER''), (''MAXREPEAT'', ''1''), (''EMPTYOK'', ''NO'')],
        XMLNode ''FIELD'' [(''NAME'', ''C''), (''TYPE'', ''DATE''), (''MAXREPEAT'', ''1''), (''EMPTYOK'', ''YES'')]]
       = Inr imp
     \<and> field_names imp = [''A'', ''B'', ''C'']"
proof -
  let ?nodes = "[XMLNode ''FIELD'' [(''NAME'', ''A''), (''TYPE'', ''TEXT''), (''MAXREPEAT'', ''1''), (''EMPTYOK'', ''YES'')],
        XMLNode ''FIELD'' [(''NAME'', ''B''), (''TYPE'', ''NUMBER''), (''MAXREPEAT'', ''1''), (''EMPTYOK'', ''NO'')],
        XMLNode ''FIELD'' [(''NAME'', ''C''), (''TYPE'', ''DATE''), (''MAXREPEAT'', ''1''), (''EMPTYOK'', ''YES'')]]"
  have "\<exists>imp. add_fields (new_importer None 0) ?nodes = Inr imp"
    by (simp add: add_field_def handler_eval flexitime_eval)
  then obtain imp where imp: "add_fields (new_importer None 0) ?nodes = Inr imp"
    by blast
  from field_names_declaration_order [OF imp] obtain names where
    n: "map (\<lambda>node. attr node ''NAME'') ?nodes = map Inr names"
      "distinct names \<longrightarrow> field_names imp = names"
    by blast
  have "map (\<lambda>node. attr node ''NAME'') ?nodes = map Inr [''A'', ''B'', ''C'']"
    by (simp add: handler_eval)
  with n(1) have "names = [''A'', ''B'', ''C'']"
    by (simp add: map_eq_Cons_conv) 
  with n(2) have "field_names imp = [''A'', ''B'', ''C'']"
    by simp
  with imp show ?thesis by blast
qed

text \<open>
  Claim C10. When the number of data values of a row differs from the number of fields,
  the record has as many items as the shorter of the two; its keys are the first field
  names, in order, and none of the later ones. An exception out of \<^verbatim>\<open>format_node\<close> is the
  one raised by the conversion of one of the paired values: the difference in length
  raises nothing.
\<close>

theorem format_node_pairs_up_to_shorter:
  assumes "distinct (field_names imp)"
  shows "(\<forall>rec. format_node sp imp hp row = Inr rec \<longrightarrow>
            length rec = min (length (field_names imp)) (length (row_values hp row))
            \<and> od_keys rec = take (length (row_values hp row)) (field_names imp)
            \<and> set (od_keys rec) \<inter> set (drop (length (row_values hp row)) (field_names imp)) = {})
      \<and> (\<forall>e. format_node sp imp hp row = Inl e \<longrightarrow>
            (\<exists>i < min (length (field_names imp)) (length (row_values hp row)).
               \<exists>nm kind mr em. snd (fmp_fields imp ! i) = (nm, kind, mr, em) \<and>
                 format_value sp imp kind (row_values hp row ! i) = Inl e))"
proof (intro conjI allI impI)
  fix rec assume "format_node sp imp hp row = Inr rec"
  then have "format_keys sp imp (zip (field_names imp) (row_values hp row))
       (take (length (row_values hp row)) (field_names imp)) [] = Inr rec"
    using assms by (simp add: format_node_eq)
  from format_keys_Inr [OF this] assms obtain vs where
    vs: "rec = zip (take (length (row_values hp row)) (field_names imp)) vs"
      "length vs = length (take (length (row_values hp row)) (field_names imp))"
    by (auto simp: od_keys_def dest: list_all2_lengthD)
  show "length rec = min (length (field_names imp)) (length (row_values hp row))"
    using vs by simp
  show k: "od_keys rec = take (length (row_values hp row)) (field_names imp)"
    using vs by (simp add: od_keys_def)
  show "set (od_keys rec) \<inter> set (drop (length (row_values hp row)) (field_names imp)) = {}"
    unfolding k using assms
    by (metis append_take_drop_id distinct_append)
next
  fix e assume "format_node sp imp hp row = Inl e"
  from format_node_Inl [OF assms this]
  show "\<exists>i < min (length (field_names imp)) (length (row_values hp row)).
               \<exists>nm kind mr em. snd (fmp_fields imp ! i) = (nm, kind, mr, em) \<and>
                 format_value sp imp kind (row_values hp row ! i) = Inl e" .
qed

theorem format_node_pairs_up_to_shorter_witness:
  "distinct (field_names \<lparr>fmp_fields = [(''A'', (''A'', ''TEXT'', 1, True)), (''B'', (''B'', ''NUMBER'', 1, True))],
                           datefmt = ''%Y/%m/%d'', database = 0\<rparr>)
   \<and> format_node strptime
        \<lparr>fmp_fields = [(''A'', (''A'', ''TEXT'', 1, True)), (''B'', (''B'', ''NUMBER'', 1, True))],
           datefmt = ''%Y/%m/%d'', database = 0\<rparr>
        ((\<lambda>_. XMLNode [] [])
           (5 := \<lparr>node_name = ''COL'', node_attrs = [], node_text = [], node_children = [6]\<rparr>,
            6 := \<lparr>node_name = ''DATA'', node_attrs = [], node_text = ''x '', node_children = []\<rparr>))
        \<lparr>node_name = ''ROW'', node_attrs = [], node_text = [], node_children = [5]\<rparr>
      = Inr [(''A'', VText ''x'')]
   \<and> length [(''A'', VText ''x'')] = (1::nat)"
proof -
  let ?imp = "\<lparr>fmp_fields = [(''A'', (''A'', ''TEXT'', 1, True)), (''B'', (''B'', ''NUMBER'', 1, True))],
                datefmt = ''%Y/%m/%d'', database = 0\<rparr>"
  let ?hp = "(\<lambda>_. XMLNode [] [])
           (5 := \<lparr>node_name = ''COL'', node_attrs = [], node_text = [], node_children = [6]\<rparr>,
            6 := \<lparr>node_name = ''DATA'', node_attrs = [], node_text = ''x '', node_children = []\<rparr>)"
  let ?row = "\<lparr>node_name = ''ROW'', node_attrs = [], node_text = [], node_children = [5]\<rparr>"
  have d: "distinct (field_names ?imp)"
    by (simp add: field_names_def od_keys_def)
  have v: "row_values ?hp ?row = [''x '']"
    by (simp add: row_values_def)
  have r: "format_node strptime ?imp ?hp ?row = Inr [(''A'', VText ''x'')]"
    by (simp add: format_node_def v field_names_def od_keys_def ordered_dict_def format_dict_def
        od_get_def format_value_def format_text_def strip_def is_space_def)
  from format_node_pairs_up_to_shorter [OF d, of strptime ?hp ?row] r
  have "length [(''A'', VText ''x'')] = min (length (field_names ?imp)) (length (row_values ?hp ?row))"
    by blast
  then have "length [(''A'', VText ''x'')] = (1::nat)"
    by (simp add: v field_names_def od_keys_def)
  with d r show ?thesis by blast
qed

section \<open>Date conversion\<close>

text \<open>
  The model of the library function returns dates that exist only.
\<close>

lemma strptime_valid:
  "strptime v format = Inr (y, m, d) \<Longrightarrow> datetime_date y m d = Inr (Date y m d)"
  by (auto simp: strptime_def datetime_date_def split: option.splits prod.splits if_splits)

text \<open>
  Claim C4. For every raw text of a DATE field: the empty text gives \<^verbatim>\<open>None\<close>; a text
  that \<^verbatim>\<open>strptime\<close> parses under the configured format gives the date of the year,
  month and day parsed; and a text it rejects makes \<^verbatim>\<open>format_date\<close> raise the same
  exception, which \<^verbatim>\<open>format_value\<close> passes on and which keeps \<^verbatim>\<open>format_dict\<close> from
  returning a record for any row that holds the text in a DATE field. The format of an
  importer made without one is \<^verbatim>\<open>%Y/%m/%d\<close>.
\<close>

theorem format_date_empty_parsed_or_raised:
  "format_date sp imp [] = Inr VNone
   \<and> (v \<noteq> [] \<and> sp v (datefmt imp) = Inr (y, m, d) \<and> datetime_date y m d = Inr dt \<longrightarrow>
        format_date sp imp v = Inr (VDate (Date y m d)))
   \<and> (v \<noteq> [] \<and> sp v (datefmt imp) = Inl e \<longrightarrow>
        format_date sp imp v = Inl e
        \<and> format_value sp imp ''DATE'' v = Inl e
        \<and> (\<forall>dic key nm mr em.
             od_get dic key = Inr v \<and> od_get (fmp_fields imp) key = Inr (nm, ''DATE'', mr, em) \<longrightarrow>
             (\<exists>e'. format_dict sp imp dic = Inl e')))
   \<and> datefmt (new_importer None db) = ''%Y/%m/%d''"
proof (intro conjI impI allI)
  show "format_date sp imp [] = Inr VNone"
    by (simp add: format_date_def)
  show "datefmt (new_importer None db) = ''%Y/%m/%d''"
    by (simp add: new_importer_def datefmt_or_default_def DEFAULT_DATEFMT_def)
next
  assume "v \<noteq> [] \<and> sp v (datefmt imp) = Inr (y, m, d) \<and> datetime_date y m d = Inr dt"
  then show "format_date sp imp v = Inr (VDate (Date y m d))"
    by (auto simp: format_date_def datetime_date_def split: if_splits)
next
  assume a: "v \<noteq> [] \<and> sp v (datefmt imp) = Inl e"
  then show fd: "format_date sp imp v = Inl e"
    by (simp add: format_date_def)
  then show fv: "format_value sp imp ''DATE'' v = Inl e"
    by (simp add: format_value_def)
  fix dic key nm mr em
  assume b: "od_get dic key = Inr v \<and> od_get (fmp_fields imp) key = Inr (nm, ''DATE'', mr, em)"
  show "\<exists>e'. format_dict sp imp dic = Inl e'"
  proof (cases "format_dict sp imp dic")
    case (Inl e')
    then show ?thesis by blast
  next
    case (Inr rec)
    then have "format_keys sp imp dic (od_keys dic) [] = Inr rec"
      by (simp add: format_dict_def)
    from format_keys_Inr_key [OF this, of key] b fv show ?thesis
      by (auto dest: od_get_in_keys)
  qed
qed

theorem format_date_empty_parsed_or_raised_witness:
  "format_date strptime (new_importer None 0) ''2020/01/15'' = Inr (VDate (Date 2020 1 15))
   \<and> format_date strptime (new_importer None 0) ''15-01-2020'' = Inl ValueError
   \<and> isl (format_dict strptime
        ((new_importer None 0)\<lparr>fmp_fields := [(''When'', (''When'', ''DATE'', 1, False))]\<rparr>)
        [(''When'', ''15-01-2020'')])"
proof -
  let ?imp = "new_importer None 0"
  let ?imp1 = "?imp\<lparr>fmp_fields := [(''When'', (''When'', ''DATE'', 1, False))]\<rparr>"
  have fmt: "datefmt ?imp = ''%Y/%m/%d''" "datefmt ?imp1 = ''%Y/%m/%d''"
    by (simp_all add: new_importer_def datefmt_or_default_def DEFAULT_DATEFMT_def)
  have ok: "''2020/01/15'' \<noteq> [] \<and> strptime ''2020/01/15'' (datefmt ?imp) = Inr (2020, 1, 15)
      \<and> datetime_date 2020 1 15 = Inr (Date 2020 1 15)"
    unfolding fmt by (simp add: strptime_eval)
  have bad: "''15-01-2020'' \<noteq> [] \<and> strptime ''15-01-2020'' (datefmt ?imp) = Inl ValueError"
    unfolding fmt by (simp add: strptime_eval)
  have bad1: "''15-01-2020'' \<noteq> [] \<and> strptime ''15-01-2020'' (datefmt ?imp1) = Inl ValueError"
    unfolding fmt by (simp add: strptime_eval)
  have row: "od_get [(''When'', ''15-01-2020'')] ''When'' = Inr ''15-01-2020''
      \<and> od_get (fmp_fields ?imp1) ''When'' = Inr (''When'', ''DATE'', 1, False)"
    by (simp add: od_get_def)
  note fd = format_date_empty_parsed_or_raised
  from fd [of strptime ?imp "''2020/01/15''" 2020 1 15 "Date 2020 1 15"] ok
  have 1: "format_date strptime ?imp ''2020/01/15'' = Inr (VDate (Date 2020 1 15))"
    by blast
  from fd [of strptime ?imp "''15-01-2020''" _ _ _ _ ValueError] bad
  have 2: "format_date strptime ?imp ''15-01-2020'' = Inl ValueError"
    by blast
  from fd [of strptime ?imp1 "''15-01-2020''" _ _ _ _ ValueError] bad1 row
  have "\<exists>e'. format_dict strptime ?imp1 [(''When'', ''15-01-2020'')] = Inl e'"
    by blast
  then have 3: "isl (format_dict strptime ?imp1 [(''When'', ''15-01-2020'')])"
    by auto
  from 1 2 3 show ?thesis by blast
qed

section \<open>The node store\<close>

text \<open>
  The invariant holds for a new handler and every event keeps it.
\<close>

lemma handler_inv_new: "handler_inv (new_handler f)"
  by (simp add: handler_inv_def new_handler_def linked_def XMLNode_def)

lemma startElement_depth [simp]: "depth (startElement name attrs h) = depth h @ [next_ref h]"
  by (simp add: startElement_def push_node_def current_node_def set_children_def Let_def)

lemma startElement_next_ref [simp]: "next_ref (startElement name attrs h) = Suc (next_ref h)"
  by (simp add: startElement_def push_node_def current_node_def set_children_def Let_def)

lemma startElement_children:
  assumes "\<forall>r \<in> set (depth h). r < next_ref h"
  shows "node_children (heap (startElement name attrs h) a) =
     (if a = next_ref h then []
      else if depth h \<noteq> [] \<and> a = last (depth h) then node_children (heap h a) @ [next_ref h]
      else node_children (heap h a))"
proof -
  have "depth h \<noteq> [] \<Longrightarrow> last (depth h) \<noteq> next_ref h"
    using assms last_in_set [of "depth h"] by (metis less_irrefl)
  then show ?thesis
    by (auto simp: startElement_def push_node_def current_node_def set_children_def Let_def XMLNode_def)
qed

lemma handler_inv_startElement:
  assumes "handler_inv h"
  shows "handler_inv (startElement name attrs h)"
proof -
  let ?h' = "startElement name attrs h" and ?n = "next_ref h"
  from assms have
    i1: "distinct (depth h)" and
    i2: "\<forall>r \<in> set (depth h). r < ?n" and
    i3: "\<And>a c. c \<in> set (node_children (heap h a)) \<Longrightarrow> c < ?n" and
    i4: "\<And>a. distinct (node_children (heap h a))" and
    i5: "\<And>a b c. c \<in> set (node_children (heap h a)) \<Longrightarrow> c \<in> set (node_children (heap h b)) \<Longrightarrow> a = b" and
    i6: "linked (heap h) (depth h)"
    unfolding handler_inv_def by blast+
  note ch = startElement_children [OF i2, of name attrs]
  have n1: "distinct (depth ?h')"
    using i1 i2 by auto
  have n2: "\<forall>r \<in> set (depth ?h'). r < next_ref ?h'"
    using i2 by auto
  have n3: "\<forall>a. \<forall>c \<in> set (node_children (heap ?h' a)). c < next_ref ?h'"
    using i3 by (auto simp: ch less_Suc_eq)
  have n4: "\<forall>a. distinct (node_children (heap ?h' a))"
    using i3 i4 by (auto simp: ch)
  have n5: "\<forall>a b c. c \<in> set (node_children (heap ?h' a)) \<and> c \<in> set (node_children (heap ?h' b)) \<longrightarrow> a = b"
    using i3 i5 by (auto simp: ch split: if_splits)
  have n6: "linked (heap ?h') (depth ?h')"
    unfolding linked_def
  proof (intro allI impI)
    fix i assume "Suc i < length (depth ?h')"
    then have i: "i < length (depth h)" by simp
    then have ne: "depth h \<noteq> []" by auto
    from i i2 have nn: "depth h ! i \<noteq> ?n" by (metis nth_mem less_irrefl)
    show "node_children (heap ?h' (depth ?h' ! i)) \<noteq> [] \<and>
          last (node_children (heap ?h' (depth ?h' ! i))) = depth ?h' ! Suc i"
    proof (cases "Suc i = length (depth h)")
      case True
      then have "depth h ! i = last (depth h)"
        using ne by (metis diff_Suc_1 last_conv_nth)
      with True i nn ne show ?thesis
        by (simp add: ch nth_append)
    next
      case False
      with i have si: "Suc i < length (depth h)" by simp
      have "depth h ! i \<noteq> last (depth h)"
        using i1 si ne by (simp add: last_conv_nth nth_eq_iff_index_eq)
      with i6 si nn show ?thesis
        by (simp add: ch nth_append linked_def)
    qed
  qed
  from n1 n2 n3 n4 n5 n6 show ?thesis
    unfolding handler_inv_def by blast
qed

lemma handler_inv_characters:
  assumes "handler_inv h" and "characters content h = Inr h'"
  shows "handler_inv h'"
proof -
  from assms(2) have "depth h' = depth h" "next_ref h' = next_ref h"
    "\<And>a. node_children (heap h' a) = node_children (heap h a)"
    by (auto simp: characters_def split: option.splits if_splits)
  with assms(1) show ?thesis
    by (simp add: handler_inv_def linked_def)
qed

lemma linked_butlast:
  assumes "linked hp st" and "distinct st"
    and "\<And>a. a \<in> set (butlast (butlast st)) \<Longrightarrow> node_children (hp' a) = node_children (hp a)"
  shows "linked hp' (butlast st)"
  unfolding linked_def
proof (intro allI impI)
  fix i assume i: "Suc i < length (butlast st)"
  then have "butlast st ! i = st ! i" "butlast st ! Suc i = st ! Suc i"
    by (simp_all add: nth_butlast)
  moreover have "st ! i \<in> set (butlast (butlast st))"
    using i by (metis Suc_lessD in_set_conv_nth length_butlast less_diff_conv nth_butlast plus_1_eq_Suc add.commute)
  moreover have "Suc i < length st"
    using i by simp
  ultimately show "node_children (hp' (butlast st ! i)) \<noteq> [] \<and>
     last (node_children (hp' (butlast st ! i))) = butlast st ! Suc i"
    using assms(1,3) by (simp add: linked_def)
qed

text \<open>
  What a successful end of a row does to the state.
\<close>

lemma endElement_row:
  assumes "endElement ''ROW'' h = Inr h'"
  shows "\<exists>rest p r rid. depth h = rest @ [p, r] \<and> attr (heap h r) ''RECORDID'' = Inr rid
     \<and> h' = set_children p (butlast (node_children (heap h p)))
              (h\<lparr>depth := rest @ [p], stdout := stdout h @ [rid]\<rparr>)"
proof -
  from assms have ne: "depth h \<noteq> []"
    by (auto simp: endElement_def pop_node_def split: if_splits)
  then obtain st r where st: "depth h = st @ [r]"
    by (metis rev_exhaust)
  from assms st obtain rid where rid: "attr (heap h r) ''RECORDID'' = Inr rid"
    by (auto simp: endElement_def pop_node_def import_node_def bind_Inr_iff)
  from assms st rid have ne2: "st \<noteq> []"
    by (auto simp: endElement_def pop_node_def import_node_def current_node_def)
  then obtain rest p where rest: "st = rest @ [p]"
    by (metis rev_exhaust)
  from assms have "h' = set_children p (butlast (node_children (heap h p)))
              (h\<lparr>depth := rest @ [p], stdout := stdout h @ [rid]\<rparr>)"
    by (simp add: endElement_def pop_node_def import_node_def current_node_def st rest rid
        set_children_def butlast_append)
  with st rest rid show ?thesis by simp
qed

lemma endElement_row_completes:
  assumes "depth h = rest @ [p, r]" and "attr (heap h r) ''RECORDID'' = Inr rid"
  shows "\<exists>h'. endElement ''ROW'' h = Inr h'"
  using assms
  by (simp add: endElement_def pop_node_def import_node_def current_node_def butlast_append)

lemma handler_inv_endElement:
  assumes "handler_inv h" and "endElement name h = Inr h'"
  shows "handler_inv h'"
proof -
  from assms(1) have
    i1: "distinct (depth h)" and
    i2: "\<forall>r \<in> set (depth h). r < next_ref h" and
    i3: "\<And>a c. c \<in> set (node_children (heap h a)) \<Longrightarrow> c < next_ref h" and
    i4: "\<And>a. distinct (node_children (heap h a))" and
    i5: "\<And>a b c. c \<in> set (node_children (heap h a)) \<Longrightarrow> c \<in> set (node_children (heap h b)) \<Longrightarrow> a = b" and
    i6: "linked (heap h) (depth h)"
    unfolding handler_inv_def by blast+
  show ?thesis
  proof (cases "name = ''ROW''")
    case True
    from endElement_row [OF assms(2) [unfolded True]] obtain rest p r rid where
      d: "depth h = rest @ [p, r]" and
      h': "h' = set_children p (butlast (node_children (heap h p)))
              (h\<lparr>depth := rest @ [p], stdout := stdout h @ [rid]\<rparr>)"
      by blast
    have dep: "depth h' = butlast (depth h)" and nx: "next_ref h' = next_ref h"
      by (simp_all add: h' d set_children_def butlast_append)
    have ch: "\<And>a. node_children (heap h' a) =
        (if a = p then butlast (node_children (heap h p)) else node_children (heap h a))"
      by (simp add: h' set_children_def)
    have pn: "p \<notin> set rest"
      using i1 d by auto
    have "linked (heap h') (butlast (depth h))"
      using i6 i1
    proof (rule linked_butlast)
      fix a assume "a \<in> set (butlast (butlast (depth h)))"
      then have "a \<in> set rest" by (simp add: d butlast_append)
      with pn show "node_children (heap h' a) = node_children (heap h a)"
        by (auto simp: ch)
    qed
    moreover have "distinct (depth h')"
      using i1 by (simp add: dep distinct_butlast)
    moreover have "\<forall>r \<in> set (depth h'). r < next_ref h'"
      using i2 by (auto simp: dep nx dest: in_set_butlastD)
    moreover have "\<forall>a. \<forall>c \<in> set (node_children (heap h' a)). c < next_ref h'"
      using i3 by (auto simp: ch nx dest: in_set_butlastD)
    moreover have "\<forall>a. distinct (node_children (heap h' a))"
      using i4 by (simp add: ch distinct_butlast)
    moreover have "\<forall>a b c. c \<in> set (node_children (heap h' a)) \<and> c \<in> set (node_children (heap h' b)) \<longrightarrow> a = b"
      using i5 by (auto simp: ch dest: in_set_butlastD split: if_splits)
    ultimately show ?thesis
      unfolding handler_inv_def dep by blast
  next
    case False
    with assms(2) have "depth h' = butlast (depth h)" "next_ref h' = next_ref h" "heap h' = heap h"
      by (auto simp: endElement_def pop_node_def bind_Inr_iff add_database_def split: if_splits)
    moreover have "linked (heap h) (butlast (depth h))"
      using i6 i1 by (rule linked_butlast) simp
    ultimately show ?thesis
      using assms(1) unfolding handler_inv_def
      by (auto simp: distinct_butlast dest: in_set_butlastD)
  qed
qed

lemma handler_inv_parse:
  "handler_inv h \<Longrightarrow> parse evs h = Inr h' \<Longrightarrow> handler_inv h'"
proof (induction evs arbitrary: h)
  case Nil
  then show ?case by simp
next
  case (Cons ev evs)
  from Cons.prems(2) obtain h1 where
    1: "handle ev h = Inr h1" and 2: "parse evs h1 = Inr h'"
    by (auto simp: bind_Inr_iff)
  from 1 Cons.prems(1) have "handler_inv h1"
    by (cases ev) (auto intro: handler_inv_startElement handler_inv_characters handler_inv_endElement)
  from Cons.IH [OF this 2] show ?case .
qed

text \<open>
  Claim C6. In every state the handler reaches from a new one, the end of a \<^verbatim>\<open>ROW\<close>
  element completes whenever the row with a record identifier is on the stack above
  another element. When it completes, it has popped the row, handed it to
  \<^verbatim>\<open>import_node\<close> (which prints the record identifier), and taken it off the end of
  the child list of the element below it on the stack. After that no node of the store has
  the row among its children. The earlier children of the parent, its name, attributes and
  text, every other node, the importer and the next free reference are as before.
\<close>

theorem endElement_row_detaches_row:
  assumes "parse evs (new_handler f) = Inr h"
  shows "(\<forall>rest p r rid. depth h = rest @ [p, r] \<and> attr (heap h r) ''RECORDID'' = Inr rid \<longrightarrow>
            (\<exists>h'. endElement ''ROW'' h = Inr h'))
     \<and> (\<forall>h'. endElement ''ROW'' h = Inr h' \<longrightarrow>
          (\<exists>rest p r rid. depth h = rest @ [p, r] \<and> depth h' = rest @ [p]
            \<and> attr (heap h r) ''RECORDID'' = Inr rid \<and> stdout h' = stdout h @ [rid]
            \<and> node_children (heap h p) = node_children (heap h' p) @ [r]
            \<and> (\<forall>a. r \<notin> set (node_children (heap h' a)))
            \<and> node_name (heap h' p) = node_name (heap h p)
            \<and> node_attrs (heap h' p) = node_attrs (heap h p)
            \<and> node_text (heap h' p) = node_text (heap h p)
            \<and> (\<forall>a. a \<noteq> p \<longrightarrow> heap h' a = heap h a)
            \<and> importer h' = importer h \<and> next_ref h' = next_ref h))"
proof (intro conjI allI impI)
  fix rest p r rid
  assume "depth h = rest @ [p, r] \<and> attr (heap h r) ''RECORDID'' = Inr rid"
  then show "\<exists>h'. endElement ''ROW'' h = Inr h'"
    by (blast intro: endElement_row_completes)
next
  fix h' assume end_row: "endElement ''ROW'' h = Inr h'"
  have inv: "handler_inv h"
    using handler_inv_new assms by (rule handler_inv_parse)
  then have
    i4: "\<And>a. distinct (node_children (heap h a))" and
    i5: "\<And>a b c. c \<in> set (node_children (heap h a)) \<Longrightarrow> c \<in> set (node_children (heap h b)) \<Longrightarrow> a = b" and
    i6: "linked (heap h) (depth h)"
    unfolding handler_inv_def by blast+
  from endElement_row [OF end_row] obtain rest p r rid where
    d: "depth h = rest @ [p, r]" and
    rid: "attr (heap h r) ''RECORDID'' = Inr rid" and
    h': "h' = set_children p (butlast (node_children (heap h p)))
              (h\<lparr>depth := rest @ [p], stdout := stdout h @ [rid]\<rparr>)"
    by blast
  from i6 d have "node_children (heap h p) \<noteq> [] \<and> last (node_children (heap h p)) = r"
    unfolding linked_def by (auto dest!: spec [of _ "length rest"] simp: nth_append)
  then have split: "node_children (heap h p) = butlast (node_children (heap h p)) @ [r]"
    by (metis append_butlast_last_id)
  have ch: "\<And>a. node_children (heap h' a) =
        (if a = p then butlast (node_children (heap h p)) else node_children (heap h a))"
    by (simp add: h' set_children_def)
  have rp: "r \<in> set (node_children (heap h p))"
    using split by (metis in_set_conv_decomp)
  have gone: "\<forall>a. r \<notin> set (node_children (heap h' a))"
  proof
    fix a show "r \<notin> set (node_children (heap h' a))"
    proof (cases "a = p")
      case True
      from i4 [of p] split have "r \<notin> set (butlast (node_children (heap h p)))"
        by (metis distinct_butlast not_distinct_conv_prefix distinct_append distinct.simps(2) disjoint_iff list.set_intros(1))
      with True show ?thesis by (simp add: ch)
    next
      case False
      with i5 [OF rp, of a] show ?thesis by (auto simp: ch)
    qed
  qed
  show "\<exists>rest p r rid. depth h = rest @ [p, r] \<and> depth h' = rest @ [p]
            \<and> attr (heap h r) ''RECORDID'' = Inr rid \<and> stdout h' = stdout h @ [rid]
            \<and> node_children (heap h p) = node_children (heap h' p) @ [r]
            \<and> (\<forall>a. r \<notin> set (node_children (heap h' a)))
            \<and> node_name (heap h' p) = node_name (heap h p)
            \<and> node_attrs (heap h' p) = node_attrs (heap h p)
            \<and> node_text (heap h' p) = node_text (heap h p)
            \<and> (\<forall>a. a \<noteq> p \<longrightarrow> heap h' a = heap h a)
            \<and> importer h' = importer h \<and> next_ref h' = next_ref h"
  proof (intro exI conjI)
    show "depth h = rest @ [p, r]" by (rule d)
    show "depth h' = rest @ [p]" by (simp add: h' set_children_def)
    show "attr (heap h r) ''RECORDID'' = Inr rid" by (rule rid)
    show "stdout h' = stdout h @ [rid]" by (simp add: h' set_children_def)
    show "node_children (heap h p) = node_children (heap h' p) @ [r]"
      using split by (simp add: ch)
    show "\<forall>a. r \<notin> set (node_children (heap h' a))" by (rule gone)
    show "node_name (heap h' p) = node_name (heap h p)" by (simp add: h' set_children_def)
    show "node_attrs (heap h' p) = node_attrs (heap h p)" by (simp add: h' set_children_def)
    show "node_text (heap h' p) = node_text (heap h p)" by (simp add: h' set_children_def)
    show "\<forall>a. a \<noteq> p \<longrightarrow> heap h' a = heap h a" by (simp add: h' set_children_def)
    show "importer h' = importer h" by (simp add: h' set_children_def)
    show "next_ref h' = next_ref h" by (simp add: h' set_children_def)
  qed
qed

theorem endElement_row_detaches_row_witness:
  "\<exists>h h'. parse [StartElement ''RESULTSET'' [], StartElement ''ROW'' [(''RECORDID'', ''7'')],
                  StartElement ''COL'' [], EndElement ''COL''] (new_handler None) = Inr h
     \<and> endElement ''ROW'' h = Inr h'
     \<and> depth h = [1, 2] \<and> depth h' = [1]
     \<and> node_children (heap h 1) = [2] \<and> node_children (heap h' 1) = []
     \<and> stdout h' = [''7'']"
proof -
  let ?evs = "[StartElement ''RESULTSET'' [], StartElement ''ROW'' [(''RECORDID'', ''7'')],
                  StartElement ''COL'' [], EndElement ''COL'']"
  have "\<exists>h. parse ?evs (new_handler None) = Inr h"
    by (simp add: handler_eval)
  then obtain h where h: "parse ?evs (new_handler None) = Inr h"
    by blast
  then have hd: "depth h = [1, 2]" "stdout h = []" "node_children (heap h 1) = [2]"
      "attr (heap h 2) ''RECORDID'' = Inr ''7''"
    by (auto simp: handler_eval)
  note row_end = endElement_row_detaches_row [OF h]
  from hd have "depth h = [] @ [1, 2] \<and> attr (heap h 2) ''RECORDID'' = Inr ''7''"
    by simp
  with row_end obtain h' where h': "endElement ''ROW'' h = Inr h'"
    by blast
  with row_end obtain rest p r rid where
    c: "depth h = rest @ [p, r]" "depth h' = rest @ [p]"
      "attr (heap h r) ''RECORDID'' = Inr rid" "stdout h' = stdout h @ [rid]"
      "node_children (heap h p) = node_children (heap h' p) @ [r]"
    by blast
  from c(1) hd(1) have "rest = [] \<and> p = 1 \<and> r = 2"
    by (cases rest; cases "tl rest") auto
  with c hd have "depth h' = [1] \<and> node_children (heap h' 1) = [] \<and> stdout h' = [''7'']"
    by auto
  with h h' hd show ?thesis by blast
qed

end
